theory Spec2Isabelle
  imports Main
begin

section \<open>JSON values and the host primitives\<close>

text \<open>
  A shallow embedding of \<open>src/json-view.js\<close>: the tree of nodes that mirrors a JSON
  document, its lazy rendering into lines of the view, the resolution of \<open>$ref\<close> pointers
  and the expand/collapse toggles. Every function of the source is a function here, under
  its own name; what the source does by mutation is returned as the new value, and what it
  does by throwing is a value \<open>Inl\<close> of the sum type.
\<close>


text \<open>
  A JSON value as \<open>JSON.parse\<close> returns it. An object is the list of its own properties
  in the order in which \<open>for ... in\<close> enumerates them, with distinct keys; an array is the
  list of its elements. Numbers are taken to be integers: the code only stores and prints
  them.
\<close>

datatype json =
    JNull
  | JBool bool
  | JNum int
  | JStr string
  | JArr "json list"
  | JObj "(string \<times> json) list"

text \<open>
  The exceptions of the source: the \<open>SyntaxError\<close> of \<open>JSON.parse\<close> (the parse error of
  the specification) and the \<open>TypeError\<close> of a property read on \<open>null\<close> or \<open>undefined\<close> or
  of a call of something that is no function. \<open>NotClickable\<close> is no exception: it marks
  a click on a line that shows no caret.
\<close>

datatype error = SyntaxError | TypeError | NotClickable

fun typeof :: "json \<Rightarrow> string" where
  "typeof JNull = ''object''"
| "typeof (JBool b) = ''boolean''"
| "typeof (JNum n) = ''number''"
| "typeof (JStr s) = ''string''"
| "typeof (JArr xs) = ''object''"
| "typeof (JObj kvs) = ''object''"

text \<open>
  Modelled from the spec: the type classifier \<open>getDataType\<close> of \<open>utils/getDataType.js\<close>,
  which is not among the sources. The specification has it map a value to one of \<open>null\<close>,
  \<open>boolean\<close>, \<open>number\<close>, \<open>string\<close>, \<open>array\<close>, \<open>object\<close>.
\<close>

fun getDataType :: "json \<Rightarrow> string" where
  "getDataType JNull = ''null''"
| "getDataType (JBool b) = ''boolean''"
| "getDataType (JNum n) = ''number''"
| "getDataType (JStr s) = ''string''"
| "getDataType (JArr xs) = ''array''"
| "getDataType (JObj kvs) = ''object''"

text \<open>
  The decimal numeral of a natural number, as the conversion of an array index or of a
  length to a string gives it.
\<close>

definition digit :: "nat \<Rightarrow> char" where
  "digit d = char_of (48 + d)"

fun show_nat :: "nat \<Rightarrow> string" where
  "show_nat n = (if n < 10 then [digit n] else show_nat (n div 10) @ [digit (n mod 10)])"

declare show_nat.simps [simp del]

text \<open>
  The pairs of key and value that \<open>for (let key in data)\<close> visits, with \<open>data[key]\<close>: the
  properties of an object, the indices of an array as decimal strings, and nothing for
  \<open>null\<close>.
\<close>

definition forin :: "json \<Rightarrow> (string \<times> json) list" where
  "forin data = (case data of
      JObj kvs \<Rightarrow> kvs
    | JArr xs \<Rightarrow> zip (map show_nat [0..<length xs]) xs
    | _ \<Rightarrow> [])"


section \<open>Elements, the view and nodes\<close>

text \<open>
  The line element of a node is kept as the parameters of the template it was made from:
  \<open>ExpandedT key size caret\<close> for \<open>expandedTemplate\<close> (a caret icon, the key and the size
  label), \<open>NotExpandedT key value type\<close> for \<open>notExpandedTemplate\<close>. Keys and values are
  taken to hold no markup, so that the children of a line are those of its template.
  \<open>hidden\<close> says whether the class list holds \<open>hidden\<close>, \<open>marginLeft\<close> is the left margin in
  pixels, and \<open>elid\<close> tells the elements apart: the number of elements created before it.
\<close>

datatype caret = CaretRight | CaretDown

datatype template =
    ExpandedT string string caret
  | NotExpandedT string string string

record element =
  elid :: nat
  hidden :: bool
  marginLeft :: nat
  line :: template

text \<open>
  Modelled from the spec: the view primitives \<open>element\<close> and \<open>listen\<close> of \<open>utils/dom.js\<close>,
  which is not among the sources; the specification has them create an element and
  subscribe a handler to an event. The view is the tree of containers and lines below the
  target element; \<open>created\<close> counts the line elements made so far, \<open>listeners\<close> the click
  handlers registered so far.
\<close>

datatype view = Line nat | Container "view list"

record dom =
  created :: nat
  listeners :: nat
  body :: "view list"

text \<open>
  A node object. Every node is held by exactly one \<open>children\<close> array, so the nodes form a
  datatype; the \<open>parent\<close> field of the source is the node whose \<open>children\<close> hold this one,
  and \<open>hasParent\<close> records that it is not \<open>null\<close>. \<open>value'\<close> and \<open>type'\<close> are the fields
  \<open>value\<close> and \<open>type\<close>; \<open>dispose\<close> is the number of the listener registered for the caret.
\<close>

record node_info =
  key :: "string option"
  hasParent :: bool
  value' :: json
  isExpanded :: bool
  type' :: "string option"
  el :: "element option"
  depth :: nat
  dispose :: "nat option"
  isPending :: bool
  parsedData :: "json option"

datatype node = Node (info: node_info) (children: "node list")

text \<open>
  The options of \<open>createNode\<close>, \<open>None\<close> for a property that the caller leaves out. The
  callers never pass \<open>isExpanded\<close>, \<open>children\<close> or \<open>el\<close>, and always pass \<open>isPending\<close>.
\<close>

record opt =
  o_value :: "json option"
  o_key :: "string option"
  o_depth :: "nat option"
  o_type :: "string option"
  o_parent :: bool
  o_isPending :: bool
  o_parsedData :: "json option"

section \<open>Building the node tree\<close>

definition isEmptyObject :: "json \<Rightarrow> bool" where
  "isEmptyObject v =
    (getDataType v = ''object'' \<and> (case v of JObj kvs \<Rightarrow> length kvs = 0 | _ \<Rightarrow> False))"

definition createNode :: "opt \<Rightarrow> node" where
  "createNode opt =
    (let v = (case o_value opt of Some x \<Rightarrow> x | None \<Rightarrow> JNull);
         v = (if isEmptyObject v then JStr ''{}'' else v)
     in Node \<lparr> key = (case o_key opt of Some k \<Rightarrow> (if k = [] then None else Some k) | None \<Rightarrow> None),
               hasParent = o_parent opt,
               value' = v,
               isExpanded = False,
               type' = (case o_type opt of Some t \<Rightarrow> (if t = [] then None else Some t) | None \<Rightarrow> None),
               el = None,
               depth = (case o_depth opt of Some d \<Rightarrow> d | None \<Rightarrow> 0),
               dispose = None,
               isPending = o_isPending opt,
               parsedData = o_parsedData opt \<rparr> [])"

lemma forin_size: "(k, v) \<in> set (forin data) \<Longrightarrow> size v < size data"
proof (cases data)
  case (JArr xs)
  assume "(k, v) \<in> set (forin data)"
  then have "v \<in> set xs" using JArr by (auto simp: forin_def dest: set_zip_rightD)
  then have "size v \<le> size_list size xs" by (simp add: size_list_estimation')
  then show ?thesis using JArr by simp
next
  case (JObj kvs)
  assume "(k, v) \<in> set (forin data)"
  then have m: "(k, v) \<in> set kvs" using JObj by (simp add: forin_def)
  have "size_prod (\<lambda>_. 0) size (k, v) \<le> size_list (size_prod (\<lambda>_. 0) size) kvs"
    using m by (simp add: size_list_estimation')
  then show ?thesis using JObj by simp
qed (simp_all add: forin_def)

text \<open>
  \<open>createSubnode\<close> pushes one child per key onto \<open>node.children\<close> and recurses into the
  child; here the child is built with its subtree and then appended. \<open>pending\<close> is computed
  once, from the depth of \<open>node\<close>, the parent of the children that the loop creates.
\<close>

function createSubnode :: "json \<Rightarrow> node \<Rightarrow> bool \<Rightarrow> node" where
  "createSubnode data node late =
    (if typeof data = ''object'' then
       (let pending = (depth (info node) > 1 \<and> \<not> late)
        in foldl (\<lambda>acc kv.
             (let child = createNode \<lparr> o_value = Some (snd kv),
                                        o_key = Some (fst kv),
                                        o_depth = Some (depth (info node) + 1),
                                        o_type = Some (getDataType (snd kv)),
                                        o_parent = True,
                                        o_isPending = pending,
                                        o_parsedData = parsedData (info node) \<rparr>
              in Node (info acc) (children acc @ [createSubnode (snd kv) child late])))
             node (forin data))
     else node)"
  by pat_completeness auto
termination
  apply (relation "measure (\<lambda>(data, node, late). size data)")
   apply simp
  apply (auto dest: forin_size)
  done

declare createSubnode.simps [simp del]

text \<open>
  \<open>JSON.parse\<close> is a parameter: \<open>parse s\<close> is \<open>None\<close> where it throws its \<open>SyntaxError\<close>.
\<close>

definition getJsonObject :: "(string \<Rightarrow> json option) \<Rightarrow> json \<Rightarrow> error + json" where
  "getJsonObject parse data =
    (if typeof data = ''string'' then
       (case data of
          JStr s \<Rightarrow> (case parse s of None \<Rightarrow> Inl SyntaxError | Some v \<Rightarrow> Inr v)
        | _ \<Rightarrow> Inr data)
     else Inr data)"

definition create :: "(string \<Rightarrow> json option) \<Rightarrow> json \<Rightarrow> error + node" where
  "create parse jsonData =
    (case getJsonObject parse jsonData of
       Inl e \<Rightarrow> Inl e
     | Inr parsed \<Rightarrow>
         (let rootNode = createNode \<lparr> o_value = Some parsed,
                                       o_key = Some (getDataType parsed),
                                       o_depth = None,
                                       o_type = Some (getDataType parsed),
                                       o_parent = False,
                                       o_isPending = False,
                                       o_parsedData = None \<rparr>;
              rootNode = Node ((info rootNode) \<lparr> parsedData := Some parsed \<rparr>) (children rootNode)
          in Inr (createSubnode parsed rootNode False)))"

section \<open>Reference resolution\<close>

text \<open>
  The string operations of \<open>resolveref\<close>: every slash is replaced by a vertical bar
  (\<open>slashToBar\<close>), then every \<open>~1\<close> by a slash, from left to right (\<open>replace_tilde1\<close>), and
  the result is split at the bars (\<open>split\<close>). \<open>part parts i\<close> is the property key that
  \<open>parts[i]\<close> yields, which is \<open>undefined\<close> beyond the end of the array.
\<close>

fun replace_tilde1 :: "string \<Rightarrow> string" where
  "replace_tilde1 [] = []"
| "replace_tilde1 [c] = [c]"
| "replace_tilde1 (c # d # cs) =
     (if c = CHR ''~'' \<and> d = CHR ''1'' then CHR ''/'' # replace_tilde1 cs
      else c # replace_tilde1 (d # cs))"

fun split :: "char \<Rightarrow> string \<Rightarrow> string list" where
  "split sep [] = [[]]"
| "split sep (c # cs) =
     (if c = sep then [] # split sep cs
      else (case split sep cs of [] \<Rightarrow> [[c]] | p # ps \<Rightarrow> (c # p) # ps))"

definition slashToBar :: "string \<Rightarrow> string" where
  "slashToBar s = map (\<lambda>x. if x = CHR ''/'' then CHR ''|'' else x) s"

definition part :: "string list \<Rightarrow> nat \<Rightarrow> string" where
  "part parts i = (if i < length parts then parts ! i else ''undefined'')"

text \<open>
  A property read can leave the document: a key that is no own property of a value is
  looked up along the prototype chain of the value, where the engine keeps its built-in
  functions and prototypes. A value of the program is therefore \<open>undefined\<close>, a JSON value,
  or an object of the engine, told apart by a number. The chain is a parameter:
  \<open>inherited obj k\<close> is what the read \<open>obj[k]\<close> yields when \<open>k\<close> is no own property of \<open>obj\<close>
  (\<open>Undefined\<close> when the chain does not hold it), and every read on an object of the
  engine. The built-ins are taken to be untouched: no prototype holds an enumerable
  property, and the method \<open>hasOwnProperty\<close> that a value inherits is the built-in one.
\<close>

datatype jsval = Undefined | Val json | Host nat

type_synonym proto = "jsval \<Rightarrow> string \<Rightarrow> jsval"

text \<open>
  The own properties of a JSON value: the properties of an object, the indices and the
  \<open>length\<close> of an array or of a string.
\<close>

definition ownProp :: "json \<Rightarrow> string \<Rightarrow> json option" where
  "ownProp obj k =
    (case obj of
       JObj kvs \<Rightarrow> map_of kvs k
     | JArr xs \<Rightarrow>
         (case find (\<lambda>i. show_nat i = k) [0..<length xs] of
            Some i \<Rightarrow> Some (xs ! i)
          | None \<Rightarrow> if k = ''length'' then Some (JNum (int (length xs))) else None)
     | JStr s \<Rightarrow>
         (case find (\<lambda>i. show_nat i = k) [0..<length s] of
            Some i \<Rightarrow> Some (JStr [s ! i])
          | None \<Rightarrow> if k = ''length'' then Some (JNum (int (length s))) else None)
     | _ \<Rightarrow> None)"

text \<open>
  The property read \<open>obj[k]\<close>, which throws on \<open>null\<close> and \<open>undefined\<close>, and the double read
  \<open>root[k1][k2]\<close> of \<open>resolveref\<close>. The field \<open>parsedData\<close> of a node is \<open>undefined\<close> where
  \<open>createNode\<close> was given none.
\<close>

definition getProp :: "proto \<Rightarrow> jsval \<Rightarrow> string \<Rightarrow> error + jsval" where
  "getProp inherited obj k =
    (case obj of
       Undefined \<Rightarrow> Inl TypeError
     | Host h \<Rightarrow> Inr (inherited obj k)
     | Val v \<Rightarrow>
         (if v = JNull then Inl TypeError
          else (case ownProp v k of
                  Some x \<Rightarrow> Inr (Val x)
                | None \<Rightarrow> Inr (inherited obj k))))"

definition getProp2 :: "proto \<Rightarrow> json option \<Rightarrow> string \<Rightarrow> string \<Rightarrow> error + jsval" where
  "getProp2 inherited root k1 k2 =
    (case getProp inherited (case root of None \<Rightarrow> Undefined | Some r \<Rightarrow> Val r) k1 of
       Inl e \<Rightarrow> Inl e
     | Inr v \<Rightarrow> getProp inherited v k2)"

definition resolveref :: "proto \<Rightarrow> node \<Rightarrow> error + jsval" where
  "resolveref inherited node =
    (case children node of
       [] \<Rightarrow> Inl TypeError
     | c # cs \<Rightarrow>
         (case value' (info c) of
            JStr s \<Rightarrow>
              (let parts = split (CHR ''|'')
                             (replace_tilde1 (slashToBar s))
               in getProp2 inherited (parsedData (info node)) (part parts 1) (part parts 2))
          | _ \<Rightarrow> Inl TypeError))"

text \<open>
  \<open>countElements\<close>: the loop \<open>for (var prop in obj)\<close> visits the keys of an object and the
  indices of an array or of a string, and nothing on any other value; for each of them the
  call \<open>obj.hasOwnProperty(prop)\<close> reads the property \<open>hasOwnProperty\<close> of \<open>obj\<close>, which is
  no function, and the call throws, when the document gives \<open>obj\<close> an own property of that
  name.
\<close>

definition forinKeys :: "json \<Rightarrow> string list" where
  "forinKeys obj =
    (case obj of
       JObj kvs \<Rightarrow> map fst kvs
     | JArr xs \<Rightarrow> map show_nat [0..<length xs]
     | JStr s \<Rightarrow> map show_nat [0..<length s]
     | _ \<Rightarrow> [])"

definition hasOwnProperty :: "json \<Rightarrow> string \<Rightarrow> error + bool" where
  "hasOwnProperty obj prop =
    (case ownProp obj ''hasOwnProperty'' of
       Some f \<Rightarrow> Inl TypeError
     | None \<Rightarrow> Inr (ownProp obj prop \<noteq> None))"

definition countElements :: "jsval \<Rightarrow> error + nat" where
  "countElements obj =
    (case obj of
       Val v \<Rightarrow>
         foldl (\<lambda>count prop.
                 (case count of
                    Inl e \<Rightarrow> Inl e
                  | Inr n \<Rightarrow>
                      (case hasOwnProperty v prop of
                         Inl e \<Rightarrow> Inl e
                       | Inr b \<Rightarrow> Inr (if b then n + 1 else n))))
               (Inr 0) (forinKeys v)
     | _ \<Rightarrow> Inr 0)"

text \<open>
  \<open>extendNodeElementByRef\<close> appends the children built from the target of the reference
  and removes the first child, the placeholder. On a target that is no JSON object or
  array \<open>createSubnode\<close> creates no child.
\<close>

definition extendNodeElementByRef :: "proto \<Rightarrow> node \<Rightarrow> error + node" where
  "extendNodeElementByRef inherited node =
    (case resolveref inherited node of
       Inl e \<Rightarrow> Inl e
     | Inr parsed \<Rightarrow>
         (let node = (case parsed of Val v \<Rightarrow> createSubnode v node False | _ \<Rightarrow> node)
          in Inr (Node (info node) (drop 1 (children node)))))"

section \<open>Presentation\<close>

text \<open>
  The text of a value in a template literal: the conversion to a string, with the
  elements of an array joined by commas.
\<close>

definition show_int :: "int \<Rightarrow> string" where
  "show_int i = (if i < 0 then CHR ''-'' # show_nat (nat (- i)) else show_nat (nat i))"

fun join :: "string list \<Rightarrow> string" where
  "join [] = []"
| "join [s] = s"
| "join (s # t # ss) = s @ CHR '','' # join (t # ss)"

fun toString :: "json \<Rightarrow> string" where
  "toString JNull = ''null''"
| "toString (JBool b) = (if b then ''true'' else ''false'')"
| "toString (JNum n) = show_int n"
| "toString (JStr s) = s"
| "toString (JArr xs) = join (map (\<lambda>x. if x = JNull then [] else toString x) xs)"
| "toString (JObj kvs) = ''[object Object]''"

definition keyString :: "string option \<Rightarrow> string" where
  "keyString k = (case k of None \<Rightarrow> ''null'' | Some s \<Rightarrow> s)"

definition getSizeString :: "node \<Rightarrow> string option" where
  "getSizeString node =
    (let len = length (children node)
     in if type' (info node) = Some ''array'' then Some (''['' @ show_nat len @ '']'')
        else if type' (info node) = Some ''object'' then Some (''{'' @ show_nat len @ ''}'')
        else None)"

definition createNodeElement :: "node \<Rightarrow> dom \<Rightarrow> node_info \<times> element \<times> dom" where
  "createNodeElement node d =
    (let (i, t, d1) =
       (if length (children node) > 0 then
          ((info node) \<lparr> dispose := Some (listeners d) \<rparr>,
           ExpandedT (keyString (key (info node)))
                     (case getSizeString node of None \<Rightarrow> ''null'' | Some s \<Rightarrow> s)
                     CaretRight,
           d \<lparr> listeners := listeners d + 1 \<rparr>)
        else
          (info node,
           NotExpandedT (keyString (key (info node)))
                        (if value' (info node) = JStr [] then [CHR 0x22, CHR 0x22]
                         else toString (value' (info node)))
                        (if value' (info node) = JStr ''{}'' then ''object''
                         else typeof (value' (info node))),
           d))
     in (i,
         \<lparr> elid = created d1,
           hidden = hasParent (info node),
           marginLeft = depth (info node) * 18,
           line = t \<rparr>,
         d1 \<lparr> created := created d1 + 1 \<rparr>))"

section \<open>Traversal\<close>

text \<open>
  The walk: the visitor first, then the children in order. A visitor changes fields of the
  node it visits, never a \<open>children\<close> array, so it is given the node and returns the new
  fields, with the state that the walk threads through.
\<close>

fun traverse :: "(node \<Rightarrow> 's \<Rightarrow> error + node_info \<times> 's) \<Rightarrow> node \<Rightarrow> 's \<Rightarrow> error + node \<times> 's"
  and forEach :: "(node \<Rightarrow> 's \<Rightarrow> error + node_info \<times> 's) \<Rightarrow> node list \<Rightarrow> 's \<Rightarrow> error + node list \<times> 's"
where
  "traverse callback (Node i cs) s =
    (case callback (Node i cs) s of
       Inl e \<Rightarrow> Inl e
     | Inr (i', s1) \<Rightarrow>
         (if length cs > 0 then
            (case forEach callback cs s1 of
               Inl e \<Rightarrow> Inl e
             | Inr (cs', s2) \<Rightarrow> Inr (Node i' cs', s2))
          else Inr (Node i' cs, s1)))"
| "forEach callback [] s = Inr ([], s)"
| "forEach callback (c # cs) s =
    (case traverse callback c s of
       Inl e \<Rightarrow> Inl e
     | Inr (c', s1) \<Rightarrow>
         (case forEach callback cs s1 of
            Inl e \<Rightarrow> Inl e
          | Inr (cs', s2) \<Rightarrow> Inr (c' # cs', s2)))"

section \<open>Showing and hiding\<close>

text \<open>
  \<open>setHidden h\<close> is \<open>el.classList.add\<close> (for \<open>h = True\<close>) or \<open>remove\<close> of the class \<open>hidden\<close>;
  the element of a node that was never materialized is \<open>null\<close>, and the read of its
  \<open>classList\<close> throws.
\<close>

definition setHidden :: "bool \<Rightarrow> node_info \<Rightarrow> error + node_info" where
  "setHidden h i =
    (case el i of
       None \<Rightarrow> Inl TypeError
     | Some e \<Rightarrow> Inr (i \<lparr> el := Some (e \<lparr> hidden := h \<rparr>) \<rparr>))"

fun hideNodeChildren :: "node \<Rightarrow> error + node"
  and hideEach :: "node list \<Rightarrow> error + node list"
where
  "hideNodeChildren (Node i cs) =
    (case hideEach cs of Inl e \<Rightarrow> Inl e | Inr cs' \<Rightarrow> Inr (Node i cs'))"
| "hideEach [] = Inr []"
| "hideEach (Node i gs # cs) =
    (case setHidden True i of
       Inl e \<Rightarrow> Inl e
     | Inr i' \<Rightarrow>
         (case (if isExpanded i' then hideNodeChildren (Node i' gs) else Inr (Node i' gs)) of
            Inl e \<Rightarrow> Inl e
          | Inr c' \<Rightarrow>
              (case hideEach cs of Inl e \<Rightarrow> Inl e | Inr cs' \<Rightarrow> Inr (c' # cs'))))"

fun showNodeChildren :: "node \<Rightarrow> error + node"
  and showEach :: "node list \<Rightarrow> error + node list"
where
  "showNodeChildren (Node i cs) =
    (case showEach cs of Inl e \<Rightarrow> Inl e | Inr cs' \<Rightarrow> Inr (Node i cs'))"
| "showEach [] = Inr []"
| "showEach (Node i gs # cs) =
    (case setHidden False i of
       Inl e \<Rightarrow> Inl e
     | Inr i' \<Rightarrow>
         (case (if isExpanded i' then showNodeChildren (Node i' gs) else Inr (Node i' gs)) of
            Inl e \<Rightarrow> Inl e
          | Inr c' \<Rightarrow>
              (case showEach cs of Inl e \<Rightarrow> Inl e | Inr cs' \<Rightarrow> Inr (c' # cs'))))"

text \<open>
  \<open>setCaretIconDown\<close> and \<open>setCaretIconRight\<close>: on a node with children the icon of the
  line, when the line has one, is given the glyph.
\<close>

definition setCaretIcon :: "caret \<Rightarrow> node \<Rightarrow> error + node_info" where
  "setCaretIcon c node =
    (if length (children node) > 0 then
       (case el (info node) of
          None \<Rightarrow> Inl TypeError
        | Some e \<Rightarrow>
            (case line e of
               ExpandedT k sz ic \<Rightarrow> Inr ((info node) \<lparr> el := Some (e \<lparr> line := ExpandedT k sz c \<rparr>) \<rparr>)
             | NotExpandedT k v t \<Rightarrow> Inr (info node)))
     else Inr (info node))"

definition setCaretIconDown :: "node \<Rightarrow> error + node_info" where
  "setCaretIconDown node = setCaretIcon CaretDown node"

definition setCaretIconRight :: "node \<Rightarrow> error + node_info" where
  "setCaretIconRight node = setCaretIcon CaretRight node"

definition expandCallback :: "node \<Rightarrow> unit \<Rightarrow> error + node_info \<times> unit" where
  "expandCallback child u =
    (case setHidden False (info child) of
       Inl e \<Rightarrow> Inl e
     | Inr i \<Rightarrow>
         (case setCaretIconDown (Node (i \<lparr> isExpanded := True \<rparr>) (children child)) of
            Inl e \<Rightarrow> Inl e
          | Inr i' \<Rightarrow> Inr (i', u)))"

definition expand :: "node \<Rightarrow> error + node" where
  "expand node =
    (case traverse expandCallback node () of
       Inl e \<Rightarrow> Inl e
     | Inr (n, u) \<Rightarrow> Inr n)"

definition collapseCallback :: "node \<Rightarrow> node \<Rightarrow> unit \<Rightarrow> error + node_info \<times> unit" where
  "collapseCallback node child u =
    (let i = (info child) \<lparr> isExpanded := False \<rparr>
     in (case (if depth i > depth (info node) then setHidden True i else Inr i) of
           Inl e \<Rightarrow> Inl e
         | Inr i' \<Rightarrow>
             (case setCaretIconRight (Node i' (children child)) of
                Inl e \<Rightarrow> Inl e
              | Inr i'' \<Rightarrow> Inr (i'', u))))"

definition collapse :: "node \<Rightarrow> error + node" where
  "collapse node =
    (case traverse (collapseCallback node) node () of
       Inl e \<Rightarrow> Inl e
     | Inr (n, u) \<Rightarrow> Inr n)"

section \<open>Rendering\<close>

text \<open>
  The count correction of \<open>render\<close>: \<open>innerText.replace("1", n)\<close> on the third child of the
  line of the parent, which is the size label (\<open>patchSize\<close>; on a line without a caret the
  third child is the separator, which holds no \<open>1\<close>). The visitor of \<open>render\<close> reaches
  the parent of the node it visits, so the walk of \<open>render\<close> hands the parent to the
  visitor and takes the fields of the parent from it: \<open>renderForEach i done cs\<close> walks the
  children \<open>cs\<close> of the node with fields \<open>i\<close>, after the children \<open>done\<close>.
\<close>

fun replaceFirst1 :: "string \<Rightarrow> string \<Rightarrow> string" where
  "replaceFirst1 [] r = []"
| "replaceFirst1 (c # cs) r = (if c = CHR ''1'' then r @ cs else c # replaceFirst1 cs r)"

definition patchSize :: "element \<Rightarrow> nat \<Rightarrow> element" where
  "patchSize e n =
    (case line e of
       ExpandedT k sz ic \<Rightarrow> e \<lparr> line := ExpandedT k (replaceFirst1 sz (show_nat n)) ic \<rparr>
     | NotExpandedT k v t \<Rightarrow> e)"

definition renderCallback ::
  "proto \<Rightarrow> node option \<Rightarrow> node \<Rightarrow> view list \<times> dom \<Rightarrow> error + node_info option \<times> node_info \<times> (view list \<times> dom)"
where
  "renderCallback inherited parent node s =
    (if \<not> isPending (info node) then
       (let (i, e, d) = createNodeElement node (snd s)
        in Inr (map_option info parent, i \<lparr> el := Some e \<rparr>, (fst s @ [Line (elid e)], d)))
     else if key (info node) = Some ''$ref'' then
       (case parent of
          None \<Rightarrow> Inl TypeError
        | Some p \<Rightarrow>
            (case resolveref inherited p of
               Inl e \<Rightarrow> Inl e
             | Inr parsed \<Rightarrow>
                 (case el (info p) of
                    None \<Rightarrow> Inl TypeError
                  | Some pe \<Rightarrow>
                      (case countElements parsed of
                         Inl e \<Rightarrow> Inl e
                       | Inr n \<Rightarrow>
                           Inr (Some ((info p) \<lparr> el := Some (patchSize pe n) \<rparr>),
                                info node, s)))))
     else Inr (map_option info parent, info node, s))"

fun renderTraverse ::
    "proto \<Rightarrow> node option \<Rightarrow> node \<Rightarrow> view list \<times> dom \<Rightarrow> error + node_info option \<times> node \<times> (view list \<times> dom)"
  and renderForEach ::
    "proto \<Rightarrow> node_info \<Rightarrow> node list \<Rightarrow> node list \<Rightarrow> view list \<times> dom \<Rightarrow> error + node_info \<times> node list \<times> (view list \<times> dom)"
where
  "renderTraverse inherited parent (Node i cs) s =
    (case renderCallback inherited parent (Node i cs) s of
       Inl e \<Rightarrow> Inl e
     | Inr (p', i', s1) \<Rightarrow>
         (if length cs > 0 then
            (case renderForEach inherited i' [] cs s1 of
               Inl e \<Rightarrow> Inl e
             | Inr (i'', cs', s2) \<Rightarrow> Inr (p', Node i'' cs', s2))
          else Inr (p', Node i' cs, s1)))"
| "renderForEach inherited i done [] s = Inr (i, done, s)"
| "renderForEach inherited i done (c # cs) s =
    (case renderTraverse inherited (Some (Node i (done @ c # cs))) c s of
       Inl e \<Rightarrow> Inl e
     | Inr (p', c', s1) \<Rightarrow>
         renderForEach inherited (case p' of Some x \<Rightarrow> x | None \<Rightarrow> i) (done @ [c']) cs s1)"

definition render :: "proto \<Rightarrow> node \<Rightarrow> dom \<Rightarrow> error + node \<times> dom" where
  "render inherited tree d =
    (case renderTraverse inherited None tree ([], d) of
       Inl e \<Rightarrow> Inl e
     | Inr (p, t, (containerEl, d1)) \<Rightarrow> Inr (t, d1 \<lparr> body := body d1 @ [Container containerEl] \<rparr>))"

definition renderJSON ::
  "(string \<Rightarrow> json option) \<Rightarrow> proto \<Rightarrow> json \<Rightarrow> dom \<Rightarrow> error + node \<times> dom" where
  "renderJSON parse inherited jsonData d =
    (case getJsonObject parse jsonData of
       Inl e \<Rightarrow> Inl e
     | Inr parsed \<Rightarrow>
         (case create parse parsed of
            Inl e \<Rightarrow> Inl e
          | Inr tree \<Rightarrow> render inherited tree d))"

section \<open>Interactive toggling\<close>

text \<open>
  A click on the caret of a line runs \<open>toggleNode\<close>, which schedules its main work with
  \<open>setTimeout\<close>. Here a click is taken with this continuation: \<open>toggleNode\<close> returns the
  state after it, and no other click comes in between. (The cursor style, set to
  \<open>wait\<close> and back, is left out.) \<open>caretLine\<close> identifies the line that holds the caret,
  \<open>caretEl.parentElement\<close>, which \<open>replaceWith\<close> replaces in the view; \<open>materialize\<close> is the
  visitor of the first expansion. \<open>click\<close> is the click of a user on the caret of the
  current line of a node, possible when that line has a caret and is not hidden, and
  \<open>clickAt\<close> is a click on the node at a path of the tree.
\<close>

fun replaceWith :: "nat \<Rightarrow> view \<Rightarrow> view list \<Rightarrow> view list" where
  "replaceWith old new [] = []"
| "replaceWith old new (Line j # vs) =
     (if j = old then new else Line j) # replaceWith old new vs"
| "replaceWith old new (Container ws # vs) =
     Container (replaceWith old new ws) # replaceWith old new vs"

definition materialize :: "node \<Rightarrow> view list \<times> dom \<Rightarrow> error + node_info \<times> (view list \<times> dom)" where
  "materialize node s =
    (let (i, e, d) = createNodeElement node (snd s)
     in Inr (i \<lparr> el := Some e, isPending := False \<rparr>,
             (if key (info node) \<noteq> Some ''$ref'' then fst s @ [Line (elid e)] else fst s, d)))"

definition toggleNode :: "proto \<Rightarrow> nat \<Rightarrow> node \<Rightarrow> dom \<Rightarrow> error + node \<times> dom" where
  "toggleNode inherited caretLine node d =
    (if isExpanded (info node) then
       (case setCaretIconRight (Node ((info node) \<lparr> isExpanded := False \<rparr>) (children node)) of
          Inl e \<Rightarrow> Inl e
        | Inr i \<Rightarrow>
            (case hideNodeChildren (Node i (children node)) of
               Inl e \<Rightarrow> Inl e
             | Inr n \<Rightarrow> Inr (n, d)))
     else
       (case setCaretIconDown (Node ((info node) \<lparr> isExpanded := True \<rparr>) (children node)) of
          Inl e \<Rightarrow> Inl e
        | Inr i \<Rightarrow>
            (case children node of
               [] \<Rightarrow> Inl TypeError
             | c # cs \<Rightarrow>
                 (if isPending (info c) then
                    (case (if key (info c) = Some ''$ref''
                           then extendNodeElementByRef inherited (Node i (children node))
                           else Inr (Node i (children node))) of
                       Inl e \<Rightarrow> Inl e
                     | Inr node1 \<Rightarrow>
                         (case traverse materialize node1 ([], d) of
                            Inl e \<Rightarrow> Inl e
                          | Inr (node2, (containerEl, d1)) \<Rightarrow>
                              (case expand node2 of
                                 Inl e \<Rightarrow> Inl e
                               | Inr node3 \<Rightarrow>
                                   (case showNodeChildren node3 of
                                      Inl e \<Rightarrow> Inl e
                                    | Inr node4 \<Rightarrow>
                                        Inr (node4,
                                             d1 \<lparr> body := replaceWith caretLine (Container containerEl) (body d1) \<rparr>)))))
                  else
                    (case showNodeChildren (Node i (children node)) of
                       Inl e \<Rightarrow> Inl e
                     | Inr n \<Rightarrow> Inr (n, d))))))"

definition click :: "proto \<Rightarrow> node \<Rightarrow> dom \<Rightarrow> error + node \<times> dom" where
  "click inherited node d =
    (case el (info node) of
       None \<Rightarrow> Inl NotClickable
     | Some e \<Rightarrow>
         (case line e of
            ExpandedT k sz ic \<Rightarrow>
              if hidden e then Inl NotClickable else toggleNode inherited (elid e) node d
          | NotExpandedT k v t \<Rightarrow> Inl NotClickable))"

fun clickAt :: "proto \<Rightarrow> nat list \<Rightarrow> node \<Rightarrow> dom \<Rightarrow> error + node \<times> dom" where
  "clickAt inherited [] node d = click inherited node d"
| "clickAt inherited (j # path) (Node i cs) d =
    (if j < length cs then
       (case clickAt inherited path (cs ! j) d of
          Inl e \<Rightarrow> Inl e
        | Inr (c', d') \<Rightarrow> Inr (Node i (cs[j := c']), d'))
     else Inl NotClickable)"

section \<open>Auxiliary notions for the properties\<close>

text \<open>
  A node is addressed by the list of child indices that leads to it from the root; the
  length of this path is the length of its ancestor chain. \<open>nodes\<close> lists the nodes of a
  tree in the order of the walk.
\<close>

fun node_at :: "node \<Rightarrow> nat list \<Rightarrow> node option" where
  "node_at n [] = Some n"
| "node_at (Node i cs) (j # p) = (if j < length cs then node_at (cs ! j) p else None)"

fun nodes :: "node \<Rightarrow> node list" where
  "nodes (Node i cs) = Node i cs # concat (map nodes cs)"

text \<open>The object literal that \<open>createSubnode\<close> passes to \<open>createNode\<close> for one key.\<close>

definition newChild :: "node \<Rightarrow> bool \<Rightarrow> string \<times> json \<Rightarrow> node" where
  "newChild node late kv =
     createNode \<lparr> o_value = Some (snd kv), o_key = Some (fst kv),
                  o_depth = Some (depth (info node) + 1),
                  o_type = Some (getDataType (snd kv)), o_parent = True,
                  o_isPending = (depth (info node) > 1 \<and> \<not> late),
                  o_parsedData = parsedData (info node) \<rparr>"

text \<open>
  \<open>wf_depth\<close>: every child is one deeper than its parent. \<open>wf_pending late\<close>: every child
  is pending exactly when the depth of its parent is greater than 1 and \<open>late\<close> is false.
\<close>

fun wf_depth :: "node \<Rightarrow> bool" where
  "wf_depth (Node i cs) = (\<forall>c \<in> set cs. depth (info c) = depth i + 1 \<and> wf_depth c)"

fun wf_pending :: "bool \<Rightarrow> node \<Rightarrow> bool" where
  "wf_pending late (Node i cs) =
     (\<forall>c \<in> set cs. (isPending (info c) \<longleftrightarrow> depth i > 1 \<and> \<not> late) \<and> wf_pending late c)"

text \<open>
  Two stand-ins for \<open>JSON.parse\<close>, a stand-in for the prototype chain that holds nothing,
  and some concrete documents.
\<close>

definition noParse :: "string \<Rightarrow> json option" where
  "noParse s = None"

definition noInherited :: proto where
  "noInherited obj k = Undefined"

text \<open>
  A fragment of the prototype chain of an engine: the property \<open>constructor\<close> that a value
  of the document inherits is the function \<open>Object\<close>, here the object 0 of the engine, whose
  property \<open>name\<close> is the string \<open>Object\<close>.
\<close>

definition objectProto :: proto where
  "objectProto obj k =
    (case obj of
       Host h \<Rightarrow> if h = 0 \<and> k = ''name'' then Val (JStr ''Object'') else Undefined
     | _ \<Rightarrow> if k = ''constructor'' then Host 0 else Undefined)"

definition oneParse :: "string \<Rightarrow> json option" where
  "oneParse s = (if s = ''[1]'' then Some (JArr [JNum 1]) else None)"

definition doc_ab :: json where
  "doc_ab = JObj [(''a'', JObj [(''b'', JObj [(''c'', JNum 1)])])]"

definition doc_falsy :: json where
  "doc_falsy = JObj [([], JNum 0), (''n'', JNull), (''s'', JStr [])]"

definition opt0 :: opt where
  "opt0 = \<lparr> o_value = None, o_key = None, o_depth = None, o_type = None,
            o_parent = False, o_isPending = False, o_parsedData = None \<rparr>"

definition dom0 :: dom where
  "dom0 = \<lparr> created = 0, listeners = 0, body = [] \<rparr>"

definition doc_ref :: json where
  "doc_ref = JObj [(''x'', JObj [(''$ref'', JStr ''#/defs/Y'')]),
                   (''defs'', JObj [(''Y'', JObj [(''p'', JNum 1), (''q'', JNum 2)])])]"

definition doc_deep_ref :: json where
  "doc_deep_ref = JObj [(''a'', JObj [(''x'', JObj [(''$ref'', JStr ''#/defs/Y'')])]),
                        (''defs'', JObj [(''Y'', JObj [(''p'', JNum 1), (''q'', JNum 2)])])]"

definition doc_bar :: json where
  "doc_bar = JObj [(''w'', JObj [(''x'', JObj [(''$ref'', JStr ''#/a|b/c'')])]),
                   (''a|b'', JObj [(''c'', JObj [(''p'', JNum 1)])]),
                   (''a'', JObj [(''b'', JObj [(''m'', JNum 1), (''n'', JNum 2)])])]"

definition doc_siblings :: json where
  "doc_siblings =
     JObj [(''a'', JObj [(''x'', JObj [(''$ref'', JStr ''#/defs/Y''),
                                        (''k1'', JNum 1), (''k2'', JNum 2), (''k3'', JNum 3),
                                        (''k4'', JNum 4), (''k5'', JNum 5), (''k6'', JNum 6),
                                        (''k7'', JNum 7), (''k8'', JNum 8), (''k9'', JNum 9)])]),
           (''defs'', JObj [(''Y'', JArr [JNum 1, JNum 2, JNum 3])])]"

definition doc_proto :: json where
  "doc_proto = JObj [(''a'', JObj [(''x'', JObj [(''$ref'', JStr ''#/constructor/name'')])])]"

definition doc_own :: json where
  "doc_own = JObj [(''a'', JObj [(''x'', JObj [(''$ref'', JStr ''#/defs/Y'')])]),
                   (''defs'', JObj [(''Y'', JObj [(''hasOwnProperty'', JNum 1)])])]"

definition doc_flat :: json where
  "doc_flat = JObj [(''a'', JNum 1), (''b'', JArr [JBool True])]"

text \<open>
  Observations on a node: the text of the size label of its element, the numeral between
  the brackets of such a label, and the keys of its children.
\<close>

definition sizeLabel :: "node \<Rightarrow> string option" where
  "sizeLabel n =
    (case el (info n) of
       None \<Rightarrow> None
     | Some e \<Rightarrow> (case line e of ExpandedT k sz ic \<Rightarrow> Some sz | NotExpandedT k v t \<Rightarrow> None))"

definition digitVal :: "char \<Rightarrow> nat option" where
  "digitVal c = (let n = (of_char c :: nat) in if 48 \<le> n \<and> n \<le> 57 then Some (n - 48) else None)"

fun parseDigits :: "nat \<Rightarrow> string \<Rightarrow> nat option" where
  "parseDigits acc [] = Some acc"
| "parseDigits acc (c # cs) =
     (case digitVal c of None \<Rightarrow> None | Some d \<Rightarrow> parseDigits (10 * acc + d) cs)"

definition labelNumeral :: "string \<Rightarrow> nat option" where
  "labelNumeral sz =
    (if length sz < 3 then None else parseDigits 0 (butlast (tl sz)))"

definition childKeys :: "node \<Rightarrow> string option list" where
  "childKeys n = map (\<lambda>c. key (info c)) (children n)"

text \<open>Sequencing of operations on the rendered tree, and the node at a path of the result.\<close>

definition andThen ::
  "error + node \<times> dom \<Rightarrow> (node \<Rightarrow> dom \<Rightarrow> error + node \<times> dom) \<Rightarrow> error + node \<times> dom" where
  "andThen r f = (case r of Inl e \<Rightarrow> Inl e | Inr (t, d) \<Rightarrow> f t d)"

definition nodeOf :: "error + node \<times> dom \<Rightarrow> nat list \<Rightarrow> node option" where
  "nodeOf r p = (case r of Inl e \<Rightarrow> None | Inr (t, d) \<Rightarrow> node_at t p)"

text \<open>
  What a walk does to a tree, from what its visitor does to one node: the visitor sees the
  node as it is before the visit and returns its new fields; the children keep their
  places.
\<close>

fun tree_rel :: "(node \<Rightarrow> node_info \<Rightarrow> bool) \<Rightarrow> node \<Rightarrow> node \<Rightarrow> bool" where
  "tree_rel Q (Node i cs) (Node i' cs') = (Q (Node i cs) i' \<and> list_all2 (tree_rel Q) cs cs')"

definition sizeText :: "node \<Rightarrow> string" where
  "sizeText n = (case getSizeString n of None \<Rightarrow> ''null'' | Some s \<Rightarrow> s)"

text \<open>
  The fields after the visitor of the first expansion (\<open>materialize\<close>) and after the
  visitor of \<open>expand\<close>, and the subtrees these two walks leave: \<open>materialized\<close>, every node
  with its element, and \<open>opened\<close>, every node shown, expanded and with its caret down.
\<close>

definition Qmat :: "node \<Rightarrow> node_info \<Rightarrow> bool" where
  "Qmat m i' =
    (key i' = key (info m) \<and> type' i' = type' (info m) \<and> hasParent i' = hasParent (info m)
     \<and> depth i' = depth (info m) \<and> value' i' = value' (info m)
     \<and> parsedData i' = parsedData (info m)
     \<and> isExpanded i' = isExpanded (info m) \<and> \<not> isPending i'
     \<and> (\<exists>e. el i' = Some e \<and> hidden e = hasParent (info m)
           \<and> (if children m = [] then (\<exists>k v t. line e = NotExpandedT k v t)
               else line e = ExpandedT (keyString (key (info m))) (sizeText m) CaretRight)))"

definition Qexp :: "node \<Rightarrow> node_info \<Rightarrow> bool" where
  "Qexp m i' =
    (key i' = key (info m) \<and> type' i' = type' (info m) \<and> hasParent i' = hasParent (info m)
     \<and> depth i' = depth (info m) \<and> value' i' = value' (info m)
     \<and> parsedData i' = parsedData (info m)
     \<and> isPending i' = isPending (info m) \<and> isExpanded i'
     \<and> (\<exists>e e'. el (info m) = Some e \<and> el i' = Some e' \<and> \<not> hidden e'
           \<and> line e' = (case line e of
                          ExpandedT k sz ic \<Rightarrow>
                            if children m = [] then line e else ExpandedT k sz CaretDown
                        | NotExpandedT k v t \<Rightarrow> line e)))"

fun materialized :: "node \<Rightarrow> bool" where
  "materialized (Node i cs) =
     ((\<exists>e. el i = Some e \<and>
            (if cs = [] then (\<exists>k v t. line e = NotExpandedT k v t)
             else (\<exists>ic. line e = ExpandedT (keyString (key i)) (sizeText (Node i cs)) ic)))
      \<and> \<not> isPending i \<and> (\<forall>c \<in> set cs. materialized c))"

fun opened :: "node \<Rightarrow> bool" where
  "opened (Node i cs) =
     ((\<exists>e. el i = Some e \<and> \<not> hidden e \<and>
            (if cs = [] then (\<exists>k v t. line e = NotExpandedT k v t)
             else line e = ExpandedT (keyString (key i)) (sizeText (Node i cs)) CaretDown))
      \<and> isExpanded i \<and> \<not> isPending i \<and> (\<forall>c \<in> set cs. opened c))"

text \<open>
  \<open>setHiddenAll h\<close> sets the \<open>hidden\<close> class of every element of a subtree;
  \<open>all_expanded\<close> holds of a subtree whose nodes all have an element and are expanded.
\<close>

fun setHiddenAll :: "bool \<Rightarrow> node \<Rightarrow> node" where
  "setHiddenAll h (Node i cs) =
     Node (i \<lparr> el := map_option (\<lambda>e. e \<lparr> hidden := h \<rparr>) (el i) \<rparr>) (map (setHiddenAll h) cs)"

fun all_expanded :: "node \<Rightarrow> bool" where
  "all_expanded (Node i cs) = (el i \<noteq> None \<and> isExpanded i \<and> (\<forall>c \<in> set cs. all_expanded c))"

text \<open>
  A node is shown when it has an element whose class list does not hold \<open>hidden\<close>; a
  line has a caret when it was made from the template of a container.
\<close>

definition shown :: "node \<Rightarrow> bool" where
  "shown n = (case el (info n) of None \<Rightarrow> False | Some e \<Rightarrow> \<not> hidden e)"

fun hasCaret :: "template \<Rightarrow> bool" where
  "hasCaret (ExpandedT k sz ic) = True"
| "hasCaret (NotExpandedT k v t) = False"

text \<open>
  A pending child keyed \<open>$ref\<close>: the placeholder of a reference node that has not been
  expanded. \<open>refCount\<close> is the number that the render writes into the size label of such a
  node: the count of the elements of the resolved target, \<open>None\<close> where the resolution or
  the count throws. \<open>labelOk\<close> says that the numeral of the size label of a node is the
  number of its children when none of them is a placeholder, and the count of the resolved
  target when its only child is one.
\<close>

definition refPending :: "node \<Rightarrow> bool" where
  "refPending c = (isPending (info c) \<and> key (info c) = Some ''$ref'')"

definition refCount :: "proto \<Rightarrow> node \<Rightarrow> nat option" where
  "refCount inherited n =
    (case resolveref inherited n of
       Inl e \<Rightarrow> None
     | Inr target \<Rightarrow> (case countElements target of Inl e \<Rightarrow> None | Inr k \<Rightarrow> Some k))"

definition labelOk :: "proto \<Rightarrow> node \<Rightarrow> bool" where
  "labelOk inherited n =
    (case sizeLabel n of
       None \<Rightarrow> True
     | Some sz \<Rightarrow>
         (if list_ex refPending (children n)
          then length (children n) \<noteq> 1
               \<or> (refCount inherited n \<noteq> None \<and> labelNumeral sz = refCount inherited n)
          else labelNumeral sz = Some (length (children n))))"

text \<open>
  The invariant of a rendered tree, in three parts. \<open>types_ok\<close>: a node with children is
  typed array or object. \<open>elems_ok\<close>: a node is pending exactly when it has no element,
  its line has a caret exactly when it has children, and its label is right. \<open>consistent v\<close>:
  the node is shown exactly when \<open>v\<close> holds, and each child is shown exactly when the node is
  shown and expanded.
\<close>

fun types_ok :: "node \<Rightarrow> bool" where
  "types_ok (Node i cs) =
     ((cs \<noteq> [] \<longrightarrow> type' i = Some ''array'' \<or> type' i = Some ''object'')
      \<and> (\<forall>c \<in> set cs. types_ok c))"

fun elems_ok :: "proto \<Rightarrow> node \<Rightarrow> bool" where
  "elems_ok inherited (Node i cs) =
     ((isPending i \<longleftrightarrow> el i = None)
      \<and> (\<forall>e. el i = Some e \<longrightarrow> (hasCaret (line e) \<longleftrightarrow> cs \<noteq> []))
      \<and> labelOk inherited (Node i cs)
      \<and> (\<forall>c \<in> set cs. elems_ok inherited c))"

fun consistent :: "bool \<Rightarrow> node \<Rightarrow> bool" where
  "consistent v (Node i cs) =
     (shown (Node i cs) = v \<and> (\<forall>c \<in> set cs. consistent (v \<and> isExpanded i) c))"

definition tree_ok :: "proto \<Rightarrow> node \<Rightarrow> bool" where
  "tree_ok inherited n = (types_ok n \<and> elems_ok inherited n \<and> consistent (shown n) n)"

text \<open>
  Changes that only touch the \<open>hidden\<close> class, the caret glyph and \<open>isExpanded\<close>.
\<close>

fun stripLine :: "template \<Rightarrow> template" where
  "stripLine (ExpandedT k sz ic) = ExpandedT k sz CaretRight"
| "stripLine (NotExpandedT k v t) = NotExpandedT k v t"

definition Qcos :: "node \<Rightarrow> node_info \<Rightarrow> bool" where
  "Qcos m i' =
    (key i' = key (info m) \<and> type' i' = type' (info m) \<and> isPending i' = isPending (info m)
     \<and> value' i' = value' (info m) \<and> parsedData i' = parsedData (info m)
     \<and> (case el (info m) of
           None \<Rightarrow> el i' = None
         | Some e \<Rightarrow> (\<exists>e'. el i' = Some e' \<and> stripLine (line e') = stripLine (line e))))"

text \<open>
  The states of a rendered tree: the render of a built tree, then clicks on carets, each
  click with its delayed continuation run to the end before the next, and calls of the
  exported \<open>expand\<close> and \<open>collapse\<close> on a node of the tree that return normally
  (\<open>replace_at t p m\<close> is the tree \<open>t\<close> with \<open>m\<close> for the node at the path \<open>p\<close>).
  \<open>reachable_by_clicks\<close> are the states that the render and the clicks alone lead to.
\<close>

fun replace_at :: "node \<Rightarrow> nat list \<Rightarrow> node \<Rightarrow> node" where
  "replace_at n [] m = m"
| "replace_at (Node i cs) (j # p) m =
     (if j < length cs then Node i (cs[j := replace_at (cs ! j) p m]) else Node i cs)"

inductive reachable :: "proto \<Rightarrow> node \<times> dom \<Rightarrow> bool" for inh :: proto where
  rendered: "create parse doc = Inr t \<Longrightarrow> render inh t d = Inr (t', d') \<Longrightarrow> reachable inh (t', d')"
| clicked: "reachable inh (t, d) \<Longrightarrow> clickAt inh p t d = Inr (t', d') \<Longrightarrow> reachable inh (t', d')"
| expanded: "reachable inh (t, d) \<Longrightarrow> node_at t p = Some n \<Longrightarrow> expand n = Inr n' \<Longrightarrow>
     reachable inh (replace_at t p n', d)"
| collapsed: "reachable inh (t, d) \<Longrightarrow> node_at t p = Some n \<Longrightarrow> collapse n = Inr n' \<Longrightarrow>
     reachable inh (replace_at t p n', d)"

inductive reachable_by_clicks :: "proto \<Rightarrow> node \<times> dom \<Rightarrow> bool" for inh :: proto where
  rendered: "create parse doc = Inr t \<Longrightarrow> render inh t d = Inr (t', d') \<Longrightarrow>
     reachable_by_clicks inh (t', d')"
| clicked: "reachable_by_clicks inh (t, d) \<Longrightarrow> clickAt inh p t d = Inr (t', d') \<Longrightarrow>
     reachable_by_clicks inh (t', d')"

text \<open>
  What the render does to a tree without elements: \<open>Qren\<close> relates a node to its fields
  after the whole walk, \<open>patched cs\<close> the fields of a node before and after the visits of its
  children \<open>cs\<close>.
\<close>

fun noel :: "node \<Rightarrow> bool" where
  "noel (Node i cs) = (el i = None \<and> (\<forall>c \<in> set cs. noel c))"

definition Qren :: "proto \<Rightarrow> node \<Rightarrow> node_info \<Rightarrow> bool" where
  "Qren inherited m i' =
    (key i' = key (info m) \<and> type' i' = type' (info m) \<and> isPending i' = isPending (info m)
     \<and> isExpanded i' = isExpanded (info m) \<and> hasParent i' = hasParent (info m)
     \<and> value' i' = value' (info m) \<and> parsedData i' = parsedData (info m)
     \<and> (if isPending (info m) then el i' = None
         else (\<exists>e. el i' = Some e \<and> hidden e = hasParent (info m)
                 \<and> (hasCaret (line e) \<longleftrightarrow> children m \<noteq> [])
                 \<and> (sizeLabel (Node i' []) = Some (sizeText m) \<or> sizeLabel (Node i' []) = None
                      \<or> (\<exists>c \<in> set (children m). refPending c))
                 \<and> (\<forall>c. children m = [c] \<and> refPending c \<longrightarrow>
                       (\<exists>k. refCount inherited m = Some k
                           \<and> sizeLabel (Node i' []) = Some (replaceFirst1 (sizeText m) (show_nat k)))))))"

definition patched :: "node list \<Rightarrow> node_info \<Rightarrow> node_info \<Rightarrow> bool" where
  "patched cs i i' =
    (key i' = key i \<and> type' i' = type' i \<and> isPending i' = isPending i
     \<and> isExpanded i' = isExpanded i \<and> hasParent i' = hasParent i
     \<and> value' i' = value' i \<and> parsedData i' = parsedData i
     \<and> (case el i of
           None \<Rightarrow> el i' = None
         | Some e \<Rightarrow> (\<exists>e'. el i' = Some e' \<and> hidden e' = hidden e
                        \<and> hasCaret (line e') = hasCaret (line e)
                        \<and> (line e' = line e \<or> (\<exists>c \<in> set cs. refPending c)))))"

text \<open>
  A tree as \<open>create\<close> returns it: no element, nothing expanded, every child with a parent.
\<close>

fun fresh :: "node \<Rightarrow> bool" where
  "fresh (Node i cs) =
     (el i = None \<and> \<not> isExpanded i \<and> (\<forall>c \<in> set cs. hasParent (info c) \<and> fresh c))"

text \<open>
  The proper descendants of a node, in the order of the walk.
\<close>

definition descendants :: "node \<Rightarrow> node list" where
  "descendants n = concat (map nodes (children n))"

section \<open>The tree builder\<close>

lemma foldl_push:
  "foldl (\<lambda>acc kv. Node (info acc) (children acc @ [f kv])) node xs
     = Node (info node) (children node @ map f xs)"
  by (induction xs arbitrary: node) simp_all

lemma createSubnode_map:
  "createSubnode data node late =
     (if typeof data = ''object'' then
        Node (info node)
          (children node @ map (\<lambda>kv. createSubnode (snd kv) (newChild node late kv) late) (forin data))
      else node)"
  by (subst createSubnode.simps) (simp add: Let_def foldl_push newChild_def)

lemma createSubnode_info [simp]: "info (createSubnode data node late) = info node"
  by (subst createSubnode_map) simp

lemma newChild_children [simp]: "children (newChild node late kv) = []"
  by (simp add: newChild_def createNode_def Let_def)

lemma newChild_depth [simp]: "depth (info (newChild node late kv)) = depth (info node) + 1"
  by (simp add: newChild_def createNode_def Let_def)

lemma newChild_isPending [simp]:
  "isPending (info (newChild node late kv)) = (depth (info node) > 1 \<and> \<not> late)"
  by (simp add: newChild_def createNode_def Let_def)

lemma wf_depth_createSubnode:
  "children node = [] \<Longrightarrow> wf_depth (createSubnode data node late)"
proof (induction data node late rule: createSubnode.induct)
  case (1 data node late)
  show ?case
  proof (cases "typeof data = ''object''")
    case True
    have "wf_depth (createSubnode (snd kv) (newChild node late kv) late)"
      if "kv \<in> set (forin data)" for kv
      using 1(1)[OF True refl that refl] by (simp add: newChild_def createNode_def Let_def)
    then show ?thesis using True 1(2)
      by (subst createSubnode_map) (cases node, auto)
  next
    case False
    then show ?thesis using 1(2) by (subst createSubnode_map) (cases node, auto)
  qed
qed

lemma wf_depth_node_at:
  "wf_depth n \<Longrightarrow> node_at n p = Some m \<Longrightarrow> depth (info m) = depth (info n) + length p \<and> wf_depth m"
proof (induction p arbitrary: n)
  case Nil
  then show ?case by simp
next
  case (Cons j p)
  obtain i cs where n: "n = Node i cs" by (cases n)
  from Cons.prems n have j: "j < length cs" and m: "node_at (cs ! j) p = Some m"
    by (auto split: if_splits)
  from Cons.prems(1) n j have "depth (info (cs ! j)) = depth i + 1" "wf_depth (cs ! j)"
    by auto
  with Cons.IH[OF _ m] show ?case using n by simp
qed

lemma wf_depth_nodes:
  "wf_depth n \<Longrightarrow> m \<in> set (nodes n) \<Longrightarrow> c \<in> set (children m) \<Longrightarrow> depth (info c) = depth (info m) + 1"
proof (induction n rule: nodes.induct)
  case (1 i cs)
  then show ?case by auto
qed

lemma getDataType_nonempty [simp]: "getDataType v \<noteq> []"
  by (cases v) auto

lemma create_ok:
  "create parse doc = Inr root \<Longrightarrow>
     \<exists>parsed. getJsonObject parse doc = Inr parsed \<and>
       root = createSubnode parsed
         (Node \<lparr> key = Some (getDataType parsed), hasParent = False,
                  value' = (if isEmptyObject parsed then JStr ''{}'' else parsed),
                  isExpanded = False, type' = Some (getDataType parsed), el = None,
                  depth = 0, dispose = None, isPending = False,
                  parsedData = Some parsed \<rparr> []) False"
  by (auto simp: create_def createNode_def Let_def split: sum.splits)

lemma wf_pending_createSubnode:
  "children node = [] \<Longrightarrow> wf_pending late (createSubnode data node late)"
proof (induction data node late rule: createSubnode.induct)
  case (1 data node late)
  show ?case
  proof (cases "typeof data = ''object''")
    case True
    have "wf_pending late (createSubnode (snd kv) (newChild node late kv) late)"
      if "kv \<in> set (forin data)" for kv
      using 1(1)[OF True refl that refl] by (simp add: newChild_def createNode_def Let_def)
    then show ?thesis using True 1(2)
      by (subst createSubnode_map) (cases node, auto)
  next
    case False
    then show ?thesis using 1(2) by (subst createSubnode_map) (cases node, auto)
  qed
qed

lemma wf_pending_nodes:
  "wf_pending late n \<Longrightarrow> m \<in> set (nodes n) \<Longrightarrow> c \<in> set (children m) \<Longrightarrow>
     (isPending (info c) \<longleftrightarrow> depth (info m) > 1 \<and> \<not> late)"
proof (induction n rule: nodes.induct)
  case (1 i cs)
  then show ?case by auto
qed

lemma nodes_cases:
  "m \<in> set (nodes n) \<Longrightarrow> m = n \<or> (\<exists>q \<in> set (nodes n). m \<in> set (children q))"
proof (induction n rule: nodes.induct)
  case (1 i cs)
  show ?case
  proof (cases "m = Node i cs")
    case True
    then show ?thesis by simp
  next
    case False
    with 1(2) obtain c where c: "c \<in> set cs" "m \<in> set (nodes c)" by auto
    from 1(1)[OF c] show ?thesis
    proof
      assume "m = c"
      with c(1) show ?thesis by auto
    next
      assume "\<exists>q\<in>set (nodes c). m \<in> set (children q)"
      with c(1) show ?thesis by auto
    qed
  qed
qed

lemma node_at_in_nodes: "node_at n p = Some m \<Longrightarrow> m \<in> set (nodes n)"
proof (induction p arbitrary: n)
  case Nil
  then show ?case by (cases n) auto
next
  case (Cons j p)
  obtain i cs where n: "n = Node i cs" by (cases n)
  from Cons.prems n have j: "j < length cs" and m: "node_at (cs ! j) p = Some m"
    by (auto split: if_splits)
  from Cons.IH[OF m] j show ?case unfolding n by auto
qed

lemma doc_ab_built:
  "(case create noParse doc_ab of
      Inr root \<Rightarrow> (case node_at root [0, 0] of Some n \<Rightarrow> True | None \<Rightarrow> False)
    | Inl e \<Rightarrow> False)"
  by code_simp

text \<open>
  Claim C7. For every document that \<open>create\<close> accepts, the root has depth 0, the node at
  the end of a path of child indices has the length of that path (its ancestor chain) as
  its depth, and every child is one deeper than its parent.
\<close>

theorem build_depth:
  assumes "create parse doc = Inr root"
  shows "depth (info root) = 0
    \<and> (\<forall>p n. node_at root p = Some n \<longrightarrow> depth (info n) = length p)
    \<and> (\<forall>n \<in> set (nodes root). \<forall>c \<in> set (children n). depth (info c) = depth (info n) + 1)"
proof -
  from create_ok[OF assms] obtain parsed r0 where
    r: "root = createSubnode parsed r0 False" and r0: "children r0 = []" "depth (info r0) = 0"
    by auto
  have wf: "wf_depth root" unfolding r by (rule wf_depth_createSubnode[OF r0(1)])
  have d0: "depth (info root) = 0" unfolding r using r0(2) by simp
  show ?thesis using wf d0 wf_depth_node_at[OF wf] wf_depth_nodes[OF wf] by auto
qed

theorem build_depth_witness:
  "\<exists>root n. create noParse doc_ab = Inr root \<and> node_at root [0, 0] = Some n
      \<and> depth (info root) = 0 \<and> depth (info n) = 2"
proof -
  from doc_ab_built obtain root n where
    h: "create noParse doc_ab = Inr root" and n: "node_at root [0, 0] = Some n"
    by (auto split: sum.splits option.splits)
  from build_depth[OF h] n have "depth (info root) = 0" "depth (info n) = length [0::nat, 0]"
    by blast+
  with h n show ?thesis by auto
qed

text \<open>
  Claim C1, as stated, fails: in the tree of \<open>{"a": {"b": {"c": 1}}}\<close> the node \<open>b\<close> has
  depth 2, which is greater than 1, and is not pending. \<open>createSubnode\<close> compares the depth
  of the node whose children it creates, not the depth of the child.
\<close>

theorem build_pending_counterexample:
  "(case create noParse doc_ab of
      Inr root \<Rightarrow>
        (case node_at root [0, 0] of
           Some n \<Rightarrow> depth (info n) > 1 \<and> \<not> isPending (info n)
         | None \<Rightarrow> False)
    | Inl e \<Rightarrow> False)"
  by code_simp

text \<open>
  Claim C1, amended. \<open>create\<close> marks a node pending if and only if the depth of its
  parent is greater than 1, that is, its own depth is greater than 2: the nodes that are
  not pending are exactly those of depth at most 2. In general every node that
  \<open>createSubnode\<close> creates below a node is pending if and only if the depth of its parent
  is greater than 1 and \<open>late\<close> is false (\<open>wf_pending\<close>); both call sites pass \<open>false\<close>.
\<close>

theorem build_pending:
  assumes "create parse doc = Inr root"
  shows "(\<forall>n \<in> set (nodes root). isPending (info n) \<longleftrightarrow> depth (info n) > 2)
    \<and> (\<forall>n \<in> set (nodes root). \<forall>c \<in> set (children n). isPending (info c) \<longleftrightarrow> depth (info n) > 1)
    \<and> (children node = [] \<longrightarrow> wf_pending late (createSubnode data node late))"
proof -
  from create_ok[OF assms] obtain parsed r0 where
    r: "root = createSubnode parsed r0 False" and r0: "children r0 = []" "depth (info r0) = 0"
      "\<not> isPending (info r0)"
    by auto
  have wd: "wf_depth root" unfolding r by (rule wf_depth_createSubnode[OF r0(1)])
  have wp: "wf_pending False root" unfolding r by (rule wf_pending_createSubnode[OF r0(1)])
  have root: "depth (info root) = 0" "\<not> isPending (info root)" unfolding r using r0 by simp_all
  have ch: "isPending (info c) \<longleftrightarrow> depth (info n) > 1"
    if "n \<in> set (nodes root)" "c \<in> set (children n)" for n c
    using wf_pending_nodes[OF wp that] by simp
  have "isPending (info n) \<longleftrightarrow> depth (info n) > 2" if n: "n \<in> set (nodes root)" for n
    using nodes_cases[OF n]
  proof
    assume "n = root"
    then show ?thesis using root by simp
  next
    assume "\<exists>q\<in>set (nodes root). n \<in> set (children q)"
    then obtain q where q: "q \<in> set (nodes root)" "n \<in> set (children q)" by auto
    from ch[OF q] wf_depth_nodes[OF wd q] show ?thesis by auto
  qed
  with ch wf_pending_createSubnode[of node late data] show ?thesis by blast
qed

lemma doc_ab_depths:
  "(case create noParse doc_ab of
      Inr root \<Rightarrow>
        (case node_at root [0, 0] of
           Some n \<Rightarrow>
             (case node_at root [0, 0, 0] of
                Some m \<Rightarrow> depth (info n) = 2 \<and> depth (info m) = 3
              | None \<Rightarrow> False)
         | None \<Rightarrow> False)
    | Inl e \<Rightarrow> False)"
  by code_simp

theorem build_pending_witness:
  "\<exists>root n m. create noParse doc_ab = Inr root \<and> node_at root [0, 0] = Some n
      \<and> node_at root [0, 0, 0] = Some m
      \<and> \<not> isPending (info n) \<and> isPending (info m)
      \<and> wf_pending True (createSubnode doc_ab (createNode opt0) True)"
proof -
  let ?r = "create noParse doc_ab"
  from doc_ab_depths obtain root where h: "?r = Inr root"
    and r1: "(case node_at root [0, 0] of
           Some n \<Rightarrow>
             (case node_at root [0, 0, 0] of
                Some m \<Rightarrow> depth (info n) = 2 \<and> depth (info m) = 3
              | None \<Rightarrow> False)
         | None \<Rightarrow> False)"
    by (cases ?r) auto
  from r1 obtain n where n: "node_at root [0, 0] = Some n"
    and r2: "(case node_at root [0, 0, 0] of
                Some m \<Rightarrow> depth (info n) = 2 \<and> depth (info m) = 3
              | None \<Rightarrow> False)"
    by (cases "node_at root [0, 0]") auto
  from r2 obtain m where m: "node_at root [0, 0, 0] = Some m"
    and d: "depth (info n) = 2" "depth (info m) = 3"
    by (cases "node_at root [0, 0, 0]") auto
  have c: "children (createNode opt0) = []" by (simp add: createNode_def Let_def)
  note t = build_pending[OF h, of "createNode opt0" True doc_ab]
  from t node_at_in_nodes[OF n] node_at_in_nodes[OF m] d
  have "\<not> isPending (info n)" "isPending (info m)" by auto
  moreover from t c have "wf_pending True (createSubnode doc_ab (createNode opt0) True)" by blast
  ultimately show ?thesis using h n m by blast
qed

text \<open>
  Claim C9. \<open>create\<close> takes a parsed document or a text. A string input is handed to
  \<open>JSON.parse\<close> (the parameter \<open>parse\<close>, \<open>None\<close> where it throws): when it is not valid
  JSON, \<open>create\<close> fails with the parser's \<open>SyntaxError\<close>; when it is, and for every input
  that is not a string, \<open>create\<close> returns the root node of the parsed document.
\<close>

theorem build_parse:
  "(parse s = None \<longrightarrow> create parse (JStr s) = Inl SyntaxError)
   \<and> (parse s = Some v \<longrightarrow>
        (\<exists>root. create parse (JStr s) = Inr root \<and> parsedData (info root) = Some v
           \<and> depth (info root) = 0 \<and> \<not> hasParent (info root)))
   \<and> (typeof doc \<noteq> ''string'' \<longrightarrow>
        (\<exists>root. create parse doc = Inr root \<and> parsedData (info root) = Some doc
           \<and> depth (info root) = 0 \<and> \<not> hasParent (info root)))"
  by (cases doc) (simp_all add: create_def getJsonObject_def createNode_def Let_def)

theorem build_parse_witness:
  "create oneParse (JStr ''[1'') = Inl SyntaxError
   \<and> (\<exists>root. create oneParse (JStr ''[1]'') = Inr root \<and> parsedData (info root) = Some (JArr [JNum 1]))
   \<and> (\<exists>root. create oneParse (JArr [JNum 1]) = Inr root \<and> parsedData (info root) = Some (JArr [JNum 1]))"
proof -
  have a: "oneParse ''[1'' = None" and b: "oneParse ''[1]'' = Some (JArr [JNum 1])"
    and c: "typeof (JArr [JNum 1]) \<noteq> ''string''"
    by (simp_all add: oneParse_def)
  from build_parse[of oneParse "''[1''" "JNull" "JNull"] a
  have 1: "create oneParse (JStr ''[1'') = Inl SyntaxError" by simp
  from build_parse[of oneParse "''[1]''" "JArr [JNum 1]" "JArr [JNum 1]"] b c
  show ?thesis using 1 by blast
qed

text \<open>
  Claim C10. \<open>createNode\<close> turns the empty key into null and keeps every other key; the
  falsy values 0, false, null and the empty string are stored unchanged. So the node that
  \<open>createSubnode\<close> builds for a property named by the empty string has key null, and the
  node built for a property with a falsy value holds that value.
\<close>

theorem node_key_value:
  "(key (info (createNode (opt \<lparr> o_key := Some k \<rparr>))) = (if k = [] then None else Some k))
   \<and> (v \<in> {JNum 0, JBool False, JNull, JStr []} \<longrightarrow>
        value' (info (createNode (opt \<lparr> o_value := Some v \<rparr>))) = v)
   \<and> (i < length kvs \<longrightarrow>
        (fst (kvs ! i) = [] \<longrightarrow>
           key (info (children (createSubnode (JObj kvs) node late) ! (length (children node) + i))) = None)
        \<and> (snd (kvs ! i) \<in> {JNum 0, JBool False, JNull, JStr []} \<longrightarrow>
           value' (info (children (createSubnode (JObj kvs) node late) ! (length (children node) + i)))
             = snd (kvs ! i)))"
proof -
  have 1: "key (info (createNode (opt \<lparr> o_key := Some k \<rparr>))) = (if k = [] then None else Some k)"
    by (simp add: createNode_def Let_def)
  have 2: "value' (info (createNode (opt \<lparr> o_value := Some v \<rparr>))) = v"
    if "v \<in> {JNum 0, JBool False, JNull, JStr []}"
    using that by (auto simp: createNode_def Let_def isEmptyObject_def)
  have 3: "children (createSubnode (JObj kvs) node late) ! (length (children node) + i)
             = createSubnode (snd (kvs ! i)) (newChild node late (kvs ! i)) late"
    if "i < length kvs"
    using that by (subst createSubnode_map) (simp add: forin_def nth_append)
  have 4: "key (info (newChild node late (kvs ! i))) = None" if "fst (kvs ! i) = []"
    using that by (simp add: newChild_def createNode_def Let_def)
  have 5: "value' (info (newChild node late (kvs ! i))) = snd (kvs ! i)"
    if "snd (kvs ! i) \<in> {JNum 0, JBool False, JNull, JStr []}"
    using that by (auto simp: newChild_def createNode_def Let_def isEmptyObject_def)
  show ?thesis using 1 2 3 4 5 by simp
qed

theorem node_key_value_witness:
  "key (info (createNode (opt0 \<lparr> o_key := Some [] \<rparr>))) = None
   \<and> value' (info (createNode (opt0 \<lparr> o_value := Some (JNum 0) \<rparr>))) = JNum 0
   \<and> key (info (children (createSubnode doc_falsy (createNode opt0) False) ! 0)) = None
   \<and> value' (info (children (createSubnode doc_falsy (createNode opt0) False) ! 0)) = JNum 0"
proof -
  have c: "children (createNode opt0) = []" by (simp add: createNode_def Let_def)
  show ?thesis
    using node_key_value[where opt = opt0 and k = "[]" and v = "JNum 0" and i = 0
        and kvs = "[([], JNum 0), (''n'', JNull), (''s'', JStr [])]"
        and node = "createNode opt0" and late = False] c
    by (simp add: doc_falsy_def)
qed

section \<open>Properties of reference resolution\<close>

lemma slashToBar_id: "CHR ''/'' \<notin> set s \<Longrightarrow> slashToBar s = s"
  by (induction s) (auto simp: slashToBar_def)

lemma replace_tilde1_sep:
  "c \<noteq> CHR ''1'' \<Longrightarrow> c \<noteq> CHR ''~'' \<Longrightarrow>
     replace_tilde1 (a @ c # b) = replace_tilde1 a @ c # replace_tilde1 b"
proof (induction a rule: replace_tilde1.induct)
  case 1
  then show ?case by (cases b) auto
next
  case (2 x)
  then show ?case by (cases b) auto
next
  case (3 x y cs)
  then show ?case by auto
qed

lemma replace_tilde1_set: "set (replace_tilde1 s) \<subseteq> insert (CHR ''/'') (set s)"
  by (induction s rule: replace_tilde1.induct) auto

lemma split_nosep: "sep \<notin> set a \<Longrightarrow> split sep a = [a]"
  by (induction a) auto

lemma split_sep: "sep \<notin> set a \<Longrightarrow> split sep (a @ sep # b) = a # split sep b"
  by (induction a) auto

lemma pointer_parts:
  assumes "CHR ''/'' \<notin> set s1" "CHR ''/'' \<notin> set s2" "CHR ''|'' \<notin> set s1" "CHR ''|'' \<notin> set s2"
  shows "split (CHR ''|'') (replace_tilde1 (slashToBar (''#/'' @ s1 @ ''/'' @ s2)))
           = [''#'', replace_tilde1 s1, replace_tilde1 s2]"
proof -
  have 1: "slashToBar (''#/'' @ s1 @ ''/'' @ s2) = ''#'' @ CHR ''|'' # (s1 @ CHR ''|'' # s2)"
    using slashToBar_id[OF assms(1)] slashToBar_id[OF assms(2)] by (simp add: slashToBar_def)
  have 2: "replace_tilde1 (''#'' @ CHR ''|'' # (s1 @ CHR ''|'' # s2))
            = ''#'' @ CHR ''|'' # (replace_tilde1 s1 @ CHR ''|'' # replace_tilde1 s2)"
  proof -
    have a: "replace_tilde1 (''#'' @ CHR ''|'' # (s1 @ CHR ''|'' # s2))
              = replace_tilde1 ''#'' @ CHR ''|'' # replace_tilde1 (s1 @ CHR ''|'' # s2)"
      by (rule replace_tilde1_sep) simp_all
    have b: "replace_tilde1 (s1 @ CHR ''|'' # s2) = replace_tilde1 s1 @ CHR ''|'' # replace_tilde1 s2"
      by (rule replace_tilde1_sep) simp_all
    show ?thesis unfolding a b by simp
  qed
  have n1: "CHR ''|'' \<notin> set (replace_tilde1 s1)" and n2: "CHR ''|'' \<notin> set (replace_tilde1 s2)"
    using replace_tilde1_set[of s1] replace_tilde1_set[of s2] assms(3,4) by auto
  have 3: "split (CHR ''|'') (''#'' @ CHR ''|'' # (replace_tilde1 s1 @ CHR ''|'' # replace_tilde1 s2))
            = [''#'', replace_tilde1 s1, replace_tilde1 s2]"
    using n1 n2 by (simp add: split_sep split_nosep)
  show ?thesis by (simp only: 1 2 3)
qed

text \<open>
  Where neither segment holds a vertical bar, \<open>resolveref\<close> reads
  \<open>documentRoot[segment1][segment2]\<close> with every \<open>~1\<close> of a segment replaced by a slash.
\<close>

lemma resolveref_pointer:
  assumes "children node = c # cs" "value' (info c) = JStr (''#/'' @ s1 @ ''/'' @ s2)"
    and "CHR ''/'' \<notin> set s1" "CHR ''/'' \<notin> set s2" "CHR ''|'' \<notin> set s1" "CHR ''|'' \<notin> set s2"
  shows "resolveref inh node = getProp2 inh (parsedData (info node)) (replace_tilde1 s1) (replace_tilde1 s2)"
  using assms(1,2) pointer_parts[OF assms(3-6)]
  by (simp add: resolveref_def part_def Let_def)

text \<open>
  A pointer can name a property that the document inherits: with the fragment
  \<open>objectProto\<close> of the prototype chain the pointer \<open>#/constructor/name\<close> resolves to the
  string \<open>Object\<close>, whose six indices the render counts. A target with an own property
  \<open>hasOwnProperty\<close> makes the count, and with it the render, throw.
\<close>

lemma resolveref_inherited:
  "(case renderJSON noParse objectProto doc_proto dom0 of
      Inr (t, d) \<Rightarrow>
        (case node_at t [0, 0] of
           Some x \<Rightarrow> resolveref objectProto x = Inr (Val (JStr ''Object''))
                     \<and> sizeLabel x = Some ''{6}''
         | None \<Rightarrow> False)
    | Inl e \<Rightarrow> False)"
  by code_simp

lemma render_hasOwnProperty: "renderJSON noParse inh doc_own dom0 = Inl TypeError"
  by code_simp

text \<open>
  Claim C4 on a segment that holds a vertical bar. \<open>resolveref\<close> turns every slash into
  a bar before it splits at bars, so a bar of the pointer itself splits its segment. In the
  document \<open>{"w": {"x": {"$ref": "#/a|b/c"}}, "a|b": {"c": {"p": 1}}, "a": {"b": {"m": 1, "n": 2}}}\<close>
  the reference node \<open>x\<close> has depth 2 and a pending placeholder, so the render and the
  first expansion of \<open>x\<close> resolve its pointer. The resolution yields
  \<open>documentRoot["a"]["b"]\<close>, where the pointer names \<open>documentRoot["a|b"]["c"]\<close>: after the
  render the size label of \<open>x\<close> reads \<open>{2}\<close>, and after the clicks that expand the root, \<open>w\<close>
  and \<open>x\<close> the children of \<open>x\<close> are \<open>m\<close> and \<open>n\<close>, not \<open>p\<close>.
\<close>

theorem resolveref_bar_segment:
  "(case renderJSON noParse inh doc_bar dom0 of
      Inr (t, d) \<Rightarrow>
        (case node_at t [0, 0] of
           Some x \<Rightarrow> childKeys x = [Some ''$ref'']
                     \<and> map (\<lambda>c. isPending (info c)) (children x) = [True]
                     \<and> resolveref inh x = Inr (Val (JObj [(''m'', JNum 1), (''n'', JNum 2)]))
                     \<and> getProp2 inh (parsedData (info x)) ''a|b'' ''c''
                         = Inr (Val (JObj [(''p'', JNum 1)]))
                     \<and> sizeLabel x = Some ''{2}''
         | None \<Rightarrow> False)
    | Inl e \<Rightarrow> False)
   \<and> (case nodeOf (andThen (andThen (andThen (renderJSON noParse inh doc_bar dom0)
                (clickAt inh [])) (clickAt inh [0])) (clickAt inh [0, 0])) [0, 0] of
      Some x \<Rightarrow> childKeys x = [Some ''m'', Some ''n'']
    | None \<Rightarrow> False)"
  by code_simp
section \<open>The reference scenario\<close>

text \<open>
  With the reference node at depth 2 the scenario of the specification runs as described.
  In \<open>{"a": {"x": {"$ref": "#/defs/Y"}}, "defs": {"Y": {"p": 1, "q": 2}}}\<close> the placeholder
  of \<open>x\<close> is pending: before the expansion \<open>x\<close> has exactly one child, keyed \<open>$ref\<close>, and its
  size label reads \<open>{2}\<close>; after the clicks that expand the root, \<open>a\<close> and \<open>x\<close> the children of
  \<open>x\<close> are exactly \<open>p\<close> and \<open>q\<close>, in that order, none keyed \<open>$ref\<close>.
\<close>

lemma deep_reference_resolved:
  "(case nodeOf (renderJSON noParse inh doc_deep_ref dom0) [0, 0] of
      Some x \<Rightarrow> childKeys x = [Some ''$ref''] \<and> sizeLabel x = Some ''{2}''
    | None \<Rightarrow> False)
   \<and> (case nodeOf (andThen (andThen (andThen (renderJSON noParse inh doc_deep_ref dom0)
                (clickAt inh [])) (clickAt inh [0])) (clickAt inh [0, 0])) [0, 0] of
      Some x \<Rightarrow> childKeys x = [Some ''p'', Some ''q''] \<and> sizeLabel x = Some ''{2}''
    | None \<Rightarrow> False)"
  by code_simp

text \<open>
  Claim C2 on its own document. In \<open>{"x": {"$ref": "#/defs/Y"}, "defs": {"Y": {"p": 1, "q": 2}}}\<close>
  the node \<open>x\<close> has depth 1, so its child \<open>$ref\<close> has depth 2 and is not pending: the render
  gives the placeholder a line of its own and corrects no count, and the size label of \<open>x\<close>
  reads \<open>{1}\<close>, not \<open>{2}\<close>. The click that expands \<open>x\<close> (after the click that expands the
  root) finds a first child that is not pending, so \<open>toggleNode\<close> never calls
  \<open>extendNodeElementByRef\<close>: the reference is not resolved, and the only child of \<open>x\<close> is
  still the one keyed \<open>$ref\<close>, not \<open>p\<close> and \<open>q\<close>.
\<close>

theorem ref_scenario:
  "(case nodeOf (renderJSON noParse inh doc_ref dom0) [0] of
      Some x \<Rightarrow> childKeys x = [Some ''$ref''] \<and> sizeLabel x = Some ''{1}''
                \<and> map (\<lambda>c. isPending (info c)) (children x) = [False]
    | None \<Rightarrow> False)
   \<and> (case nodeOf (andThen (andThen (renderJSON noParse inh doc_ref dom0) (clickAt inh [])) (clickAt inh [0])) [0] of
      Some x \<Rightarrow> isExpanded (info x) \<and> childKeys x = [Some ''$ref''] \<and> sizeLabel x = Some ''{1}''
    | None \<Rightarrow> False)"
  by code_simp
section \<open>Totality of the walk, expand and collapse\<close>

lemma traverse_total:
  "(\<forall>m \<in> set (nodes n). \<forall>s. \<exists>r. cb m s = Inr r) \<Longrightarrow> \<exists>r. traverse cb n s = Inr r"
  "(\<forall>c \<in> set cs. \<forall>m \<in> set (nodes c). \<forall>s. \<exists>r. cb m s = Inr r) \<Longrightarrow> \<exists>r. forEach cb cs s = Inr r"
proof (induction cb n s and cb cs s rule: traverse_forEach.induct)
  case (1 callback i cs s)
  from 1(2) obtain i' s1 where c: "callback (Node i cs) s = Inr (i', s1)" by fastforce
  show ?case
  proof (cases "length cs > 0")
    case True
    have "\<forall>c\<in>set cs. \<forall>m\<in>set (nodes c). \<forall>s. \<exists>r. callback m s = Inr r" using 1(2) by auto
    from 1(1)[OF c refl True this] obtain r where "forEach callback cs s1 = Inr r" by auto
    then show ?thesis using c True by (cases r) simp
  next
    case False
    then show ?thesis using c by simp
  qed
next
  case (2 callback s)
  then show ?case by simp
next
  case (3 callback c cs s)
  from 3(1) 3(3) obtain c' s1 where t: "traverse callback c s = Inr (c', s1)" by fastforce
  from 3(2)[OF t refl] 3(3) obtain r where "forEach callback cs s1 = Inr r" by auto
  then show ?case using t by (cases r) simp
qed

lemma expandCallback_total: "el (info m) \<noteq> None \<Longrightarrow> \<exists>r. expandCallback m s = Inr r"
  by (auto simp: expandCallback_def setHidden_def setCaretIconDown_def setCaretIcon_def
      split: option.splits template.splits)

lemma collapseCallback_total: "el (info m) \<noteq> None \<Longrightarrow> \<exists>r. collapseCallback n m s = Inr r"
  by (auto simp: collapseCallback_def setHidden_def setCaretIconRight_def setCaretIcon_def Let_def
      split: option.splits template.splits)

lemma materialize_total: "\<exists>r. materialize m s = Inr r"
  by (simp add: materialize_def split: prod.splits)

text \<open>
  Claim C8, as stated, fails: on the tree that \<open>create\<close> returns no node has an element
  yet, and both \<open>expand\<close> and \<open>collapse\<close> of its root stop with a \<open>TypeError\<close> (the read of
  \<open>classList\<close>, or of \<open>querySelector\<close>, on the null element). They do so on the rendered
  tree of \<open>{"a": {"b": {"c": 1}}}\<close> as well, whose pending node \<open>c\<close> has no element.
\<close>

theorem walk_expand_collapse_counterexample:
  "(case create noParse doc_ab of
      Inr root \<Rightarrow> expand root = Inl TypeError \<and> collapse root = Inl TypeError
    | Inl e \<Rightarrow> False)
   \<and> (\<forall>inherited.
        (case renderJSON noParse inherited doc_ab dom0 of
           Inr (t, d) \<Rightarrow> expand t = Inl TypeError \<and> collapse t = Inl TypeError
         | Inl e \<Rightarrow> False))"
proof (intro conjI allI)
  show "(case create noParse doc_ab of
      Inr root \<Rightarrow> expand root = Inl TypeError \<and> collapse root = Inl TypeError
    | Inl e \<Rightarrow> False)"
    by code_simp
next
  fix inherited
  show "(case renderJSON noParse inherited doc_ab dom0 of
           Inr (t, d) \<Rightarrow> expand t = Inl TypeError \<and> collapse t = Inl TypeError
         | Inl e \<Rightarrow> False)"
    by code_simp
qed

text \<open>
  Claim C8, amended. The walk is total: with a visitor that fails on no node of the tree
  it returns. \<open>expand\<close> and \<open>collapse\<close> return on every subtree whose nodes all have their
  element, that is, on a subtree that has been materialized; \<open>expand\<close> of a node that has
  no element fails with a \<open>TypeError\<close>.
\<close>

theorem walk_expand_collapse_total:
  "((\<forall>m \<in> set (nodes n). \<forall>s. \<exists>r. cb m s = Inr r) \<longrightarrow> (\<exists>r. traverse cb n s = Inr r))
   \<and> ((\<forall>m \<in> set (nodes n). el (info m) \<noteq> None) \<longrightarrow>
        (\<exists>n'. expand n = Inr n') \<and> (\<exists>n'. collapse n = Inr n'))
   \<and> (el (info n) = None \<longrightarrow> expand n = Inl TypeError)"
proof -
  have 1: "\<exists>n'. expand n = Inr n'" if a: "\<forall>m \<in> set (nodes n). el (info m) \<noteq> None"
  proof -
    from a have "\<forall>m \<in> set (nodes n). \<forall>s. \<exists>r. expandCallback m s = Inr r"
      using expandCallback_total by blast
    from traverse_total(1)[OF this] obtain r where "traverse expandCallback n () = Inr r" by blast
    then show ?thesis by (cases r) (simp add: expand_def)
  qed
  have 2: "\<exists>n'. collapse n = Inr n'" if a: "\<forall>m \<in> set (nodes n). el (info m) \<noteq> None"
  proof -
    from a have "\<forall>m \<in> set (nodes n). \<forall>s. \<exists>r. collapseCallback n m s = Inr r"
      using collapseCallback_total by blast
    from traverse_total(1)[OF this] obtain r where "traverse (collapseCallback n) n () = Inr r" by blast
    then show ?thesis by (cases r) (simp add: collapse_def)
  qed
  have 3: "expand n = Inl TypeError" if "el (info n) = None"
    using that by (cases n) (simp add: expand_def expandCallback_def setHidden_def)
  show ?thesis using 1 2 3 traverse_total(1)[of n cb s] by blast
qed

lemma doc_flat_rendered:
  "(case renderJSON noParse inh doc_flat dom0 of
      Inr (t, d) \<Rightarrow> list_all (\<lambda>m. el (info m) \<noteq> None) (nodes t)
    | Inl e \<Rightarrow> False)"
  by code_simp

lemma doc_flat_built:
  "(case create noParse doc_flat of Inr root \<Rightarrow> el (info root) = None | Inl e \<Rightarrow> False)"
  by code_simp

theorem walk_expand_collapse_total_witness:
  "\<exists>t d root. renderJSON noParse noInherited doc_flat dom0 = Inr (t, d)
     \<and> (\<exists>r. traverse materialize t ([], d) = Inr r)
     \<and> (\<exists>n'. expand t = Inr n') \<and> (\<exists>n'. collapse t = Inr n')
     \<and> create noParse doc_flat = Inr root \<and> expand root = Inl TypeError"
proof -
  from doc_flat_rendered[of noInherited] obtain t d where
    r: "renderJSON noParse noInherited doc_flat dom0 = Inr (t, d)"
    and e: "\<forall>m \<in> set (nodes t). el (info m) \<noteq> None"
    by (auto split: sum.splits simp: list_all_iff)
  from doc_flat_built obtain root where
    c: "create noParse doc_flat = Inr root" and n: "el (info root) = None"
    by (auto split: sum.splits)
  have m: "\<forall>m \<in> set (nodes t). \<forall>s. \<exists>r. materialize m s = Inr r"
    using materialize_total by blast
  from walk_expand_collapse_total[of t materialize "([], d)"] m e
  have 1: "\<exists>r. traverse materialize t ([], d) = Inr r" "\<exists>n'. expand t = Inr n'"
    "\<exists>n'. collapse t = Inr n'" by blast+
  from walk_expand_collapse_total[of root materialize "([], d)"] n
  have 2: "expand root = Inl TypeError" by blast
  from r c 1 2 show ?thesis by blast
qed

section \<open>The first expansion and the toggles after it\<close>

lemma traverse_rel:
  "(\<And>m s i s'. cb m s = Inr (i, s') \<Longrightarrow> Q m i) \<Longrightarrow>
     traverse cb n s = Inr (n', s') \<Longrightarrow> tree_rel Q n n'"
  "(\<And>m s i s'. cb m s = Inr (i, s') \<Longrightarrow> Q m i) \<Longrightarrow>
     forEach cb cs s = Inr (cs', s') \<Longrightarrow> list_all2 (tree_rel Q) cs cs'"
proof (induction cb n s and cb cs s arbitrary: n' s' and cs' s' rule: traverse_forEach.induct)
  case (1 callback i cs s)
  from 1(3) obtain i' s1 where c: "callback (Node i cs) s = Inr (i', s1)"
    by (auto split: sum.splits)
  have q: "Q (Node i cs) i'" using 1(2)[OF c] .
  show ?case
  proof (cases "length cs > 0")
    case True
    with 1(3) c obtain cs' where f: "forEach callback cs s1 = Inr (cs', s')" and n': "n' = Node i' cs'"
      by (auto split: sum.splits)
    from 1(1)[OF c refl True 1(2) f] q n' show ?thesis by simp
  next
    case False
    with 1(3) c have "n' = Node i' cs" "cs = []" by auto
    with q show ?thesis by simp
  qed
next
  case (2 callback s)
  then show ?case by simp
next
  case (3 callback c cs s)
  from 3(4) obtain c' s1 where t: "traverse callback c s = Inr (c', s1)"
    by (auto split: sum.splits)
  with 3(4) obtain cs'' where f: "forEach callback cs s1 = Inr (cs'', s')" and e: "cs' = c' # cs''"
    by (auto split: sum.splits)
  from 3(1)[OF 3(3) t] 3(2)[OF t refl 3(3) f] e show ?case by simp
qed

lemma materialize_Qmat: "materialize m s = Inr (i, s') \<Longrightarrow> Qmat m i"
  by (auto simp: materialize_def createNodeElement_def Qmat_def sizeText_def Let_def
      split: prod.splits if_splits)

lemma expandCallback_Qexp: "expandCallback m s = Inr (i, s') \<Longrightarrow> Qexp m i"
  by (auto simp: expandCallback_def setHidden_def setCaretIconDown_def setCaretIcon_def Qexp_def
      split: option.splits template.splits if_splits sum.splits)

lemma sizeText_cong:
  "type' (info n') = type' (info n) \<Longrightarrow> length (children n') = length (children n) \<Longrightarrow>
     sizeText n' = sizeText n"
  by (simp add: sizeText_def getSizeString_def Let_def)

lemma tree_rel_length: "tree_rel Q n n' \<Longrightarrow> length (children n') = length (children n)"
  by (cases n; cases n') (auto dest: list_all2_lengthD)

lemma tree_rel_Qmat: "tree_rel Qmat n n' \<Longrightarrow> materialized n'"
proof (induction n arbitrary: n')
  case (Node i cs)
  obtain i' cs' where n': "n' = Node i' cs'" by (cases n')
  from Node.prems n' have q: "Qmat (Node i cs) i'" and l: "list_all2 (tree_rel Qmat) cs cs'" by auto
  have len: "length cs' = length cs" using l by (auto dest: list_all2_lengthD)
  have ch: "\<forall>c \<in> set cs'. materialized c"
  proof
    fix c assume "c \<in> set cs'"
    then obtain k where k: "k < length cs'" "c = cs' ! k" by (auto simp: in_set_conv_nth)
    with l len have "tree_rel Qmat (cs ! k) c" by (auto dest: list_all2_nthD)
    moreover have "cs ! k \<in> set cs" using k len by simp
    ultimately show "materialized c" using Node.IH by blast
  qed
  have st: "sizeText (Node i' cs') = sizeText (Node i cs)"
    using q len by (intro sizeText_cong) (auto simp: Qmat_def)
  from q len have "cs' = [] \<longleftrightarrow> cs = []" by auto
  with q ch st show ?case unfolding n' by (auto simp: Qmat_def)
qed

lemma tree_rel_Qexp: "materialized n \<Longrightarrow> tree_rel Qexp n n' \<Longrightarrow> opened n'"
proof (induction n arbitrary: n')
  case (Node i cs)
  obtain i' cs' where n': "n' = Node i' cs'" by (cases n')
  from Node.prems(2) n' have q: "Qexp (Node i cs) i'" and l: "list_all2 (tree_rel Qexp) cs cs'" by auto
  have len: "length cs' = length cs" using l by (auto dest: list_all2_lengthD)
  have ch: "\<forall>c \<in> set cs'. opened c"
  proof
    fix c assume "c \<in> set cs'"
    then obtain k where k: "k < length cs'" "c = cs' ! k" by (auto simp: in_set_conv_nth)
    with l len have "tree_rel Qexp (cs ! k) c" by (auto dest: list_all2_nthD)
    moreover have "cs ! k \<in> set cs" using k len by simp
    moreover have "materialized (cs ! k)" using Node.prems(1) \<open>cs ! k \<in> set cs\<close> by simp
    ultimately show "opened c" using Node.IH by blast
  qed
  have st: "sizeText (Node i' cs') = sizeText (Node i cs)"
    using q len by (intro sizeText_cong) (auto simp: Qexp_def)
  from len have e: "cs' = [] \<longleftrightarrow> cs = []" by auto
  from q Node.prems(1) ch st e show ?case unfolding n'
    by (auto simp: Qexp_def split: if_splits)
qed

lemma materialize_expand_opened:
  assumes "traverse materialize n s = Inr (n2, s2)" "expand n2 = Inr n3"
  shows "opened n3"
proof -
  have 1: "tree_rel Qmat n n2"
    by (rule traverse_rel(1)[where cb = materialize, OF _ assms(1)]) (rule materialize_Qmat)
  from assms(2) obtain u where t: "traverse expandCallback n2 () = Inr (n3, u)"
    by (auto simp: expand_def split: sum.splits)
  have 2: "tree_rel Qexp n2 n3"
    by (rule traverse_rel(1)[where cb = expandCallback, OF _ t]) (rule expandCallback_Qexp)
  show ?thesis using tree_rel_Qexp[OF tree_rel_Qmat[OF 1] 2] .
qed

lemma hide_all_expanded:
  "(\<forall>c \<in> set (children n). all_expanded c) \<Longrightarrow>
     hideNodeChildren n = Inr (Node (info n) (map (setHiddenAll True) (children n)))"
  "(\<forall>c \<in> set cs. all_expanded c) \<Longrightarrow> hideEach cs = Inr (map (setHiddenAll True) cs)"
proof (induction n and cs rule: hideNodeChildren_hideEach.induct)
  case (1 i cs)
  then show ?case by simp
next
  case 2
  then show ?case by simp
next
  case (3 i gs cs)
  from 3(3) obtain e where e: "el i = Some e" and x: "isExpanded i"
    and g: "\<forall>c \<in> set gs. all_expanded c" and r: "\<forall>c \<in> set cs. all_expanded c"
    by auto
  let ?i = "i \<lparr> el := Some (e \<lparr> hidden := True \<rparr>) \<rparr>"
  have s: "setHidden True i = Inr ?i" using e by (simp add: setHidden_def)
  have h: "hideNodeChildren (Node ?i gs) = Inr (Node ?i (map (setHiddenAll True) gs))"
    using 3(1)[OF s] x g by simp
  have t: "hideEach cs = Inr (map (setHiddenAll True) cs)"
    using 3(2)[OF s _ ] h x r by simp
  show ?case using s h t x e by simp
qed

lemma show_all_expanded:
  "(\<forall>c \<in> set (children n). all_expanded c) \<Longrightarrow>
     showNodeChildren n = Inr (Node (info n) (map (setHiddenAll False) (children n)))"
  "(\<forall>c \<in> set cs. all_expanded c) \<Longrightarrow> showEach cs = Inr (map (setHiddenAll False) cs)"
proof (induction n and cs rule: showNodeChildren_showEach.induct)
  case (1 i cs)
  then show ?case by simp
next
  case 2
  then show ?case by simp
next
  case (3 i gs cs)
  from 3(3) obtain e where e: "el i = Some e" and x: "isExpanded i"
    and g: "\<forall>c \<in> set gs. all_expanded c" and r: "\<forall>c \<in> set cs. all_expanded c"
    by auto
  let ?i = "i \<lparr> el := Some (e \<lparr> hidden := False \<rparr>) \<rparr>"
  have s: "setHidden False i = Inr ?i" using e by (simp add: setHidden_def)
  have h: "showNodeChildren (Node ?i gs) = Inr (Node ?i (map (setHiddenAll False) gs))"
    using 3(1)[OF s] x g by simp
  have t: "showEach cs = Inr (map (setHiddenAll False) cs)"
    using 3(2)[OF s _ ] h x r by simp
  show ?case using s h t x e by simp
qed

lemma all_expanded_setHiddenAll [simp]: "all_expanded (setHiddenAll h c) = all_expanded c"
  by (induction c) auto

lemma opened_all_expanded: "opened c \<Longrightarrow> all_expanded c"
  by (induction c) auto

lemma opened_unhide: "opened c \<Longrightarrow> setHiddenAll False (setHiddenAll True c) = c"
proof (induction c)
  case (Node i cs)
  then have "map (setHiddenAll False \<circ> setHiddenAll True) cs = cs"
    by (intro map_idI) auto
  with Node.prems show ?case by auto
qed

lemma opened_show: "opened c \<Longrightarrow> setHiddenAll False c = c"
proof (induction c)
  case (Node i cs)
  then have "map (setHiddenAll False) cs = cs"
    by (intro map_idI) auto
  with Node.prems show ?case by auto
qed

lemma isPending_setHiddenAll [simp]: "isPending (info (setHiddenAll h c)) = isPending (info c)"
  by (cases c) simp

lemma opened_not_pending: "opened c \<Longrightarrow> \<not> isPending (info c)"
  by (cases c) simp

text \<open>
  Claim C5. Take a node whose first child is pending (its subtree was never materialized)
  and that is collapsed, and click its caret: the subtree is materialized and opened. If
  the node still has children afterwards (so its new line has a caret to click), a second
  click collapses it and a third click expands it again, and the state after the third
  click is the state after the first: the same nodes with the same elements (identities,
  classes, texts), and the same view, with the same count of created elements and of
  listeners. Neither later click creates an element. (Each click is taken with its delayed
  continuation; clicks do not overlap.)
\<close>

theorem toggle_again:
  assumes ch: "children n = c # cs" and p: "isPending (info c)" and ne: "\<not> isExpanded (info n)"
    and c1: "click inh n d = Inr (n1, d1)" and k: "children n1 \<noteq> []"
  shows "\<exists>n2. click inh n1 d1 = Inr (n2, d1) \<and> click inh n2 d1 = Inr (n1, d1)"
proof -
  from c1 obtain e :: element where t: "toggleNode inh (elid e) n d = Inr (n1, d1)"
    by (auto simp: click_def split: option.splits template.splits if_splits)
  from t ch p ne obtain node1 node2 s2 node3 where
    m: "traverse materialize node1 ([], d) = Inr (node2, s2)" and x: "expand node2 = Inr node3"
    and s: "showNodeChildren node3 = Inr n1"
    by (auto simp: toggleNode_def split: sum.splits if_splits prod.splits)
  have o3: "opened node3" using materialize_expand_opened[OF m x] .
  have "showNodeChildren node3 = Inr node3"
  proof -
    have "\<forall>c \<in> set (children node3). all_expanded c"
      using o3 opened_all_expanded by (cases node3) auto
    from show_all_expanded(1)[OF this] have "showNodeChildren node3 = Inr (setHiddenAll False node3)"
      using o3 by (cases node3) auto
    then show ?thesis using opened_show[OF o3] by simp
  qed
  with s have n1: "n1 = node3" by simp
  obtain i1 cs1 where N: "n1 = Node i1 cs1" by (cases n1)
  from o3 n1 N k obtain e1 where e1: "el i1 = Some e1" "\<not> hidden e1"
    "line e1 = ExpandedT (keyString (key i1)) (sizeText n1) CaretDown"
    and x1: "isExpanded i1" and oc: "\<forall>c \<in> set cs1. opened c"
    by auto
  have ac: "\<forall>c \<in> set cs1. all_expanded c" using oc opened_all_expanded by blast
  let ?i2 = "i1 \<lparr> isExpanded := False,
                   el := Some (e1 \<lparr> line := ExpandedT (keyString (key i1)) (sizeText n1) CaretRight \<rparr>) \<rparr>"
  let ?n2 = "Node ?i2 (map (setHiddenAll True) cs1)"
  have a: "click inh n1 d1 = Inr (?n2, d1)"
    using e1 x1 k N hide_all_expanded(1)[of "Node ?i2 cs1"] ac
    by (simp add: click_def toggleNode_def setCaretIconRight_def setCaretIcon_def)
  have u: "map (setHiddenAll False) (map (setHiddenAll True) cs1) = cs1"
    using oc opened_unhide by (simp add: map_idI)
  have e1': "e1 \<lparr> line := ExpandedT (keyString (key i1)) (sizeText n1) CaretDown \<rparr> = e1"
    using e1(3) by (cases e1) auto
  have i1: "i1 \<lparr> isExpanded := True, el := Some e1 \<rparr> = i1" using e1 x1 by (cases i1) auto
  have b: "click inh ?n2 d1 = Inr (n1, d1)"
  proof -
    from k N obtain c1 r1 where cs1: "cs1 = c1 # r1" by (cases cs1) auto
    have np: "\<not> isPending (info (setHiddenAll True c1))"
      using oc cs1 opened_not_pending by simp
    have se: "showEach (map (setHiddenAll True) cs1) = Inr cs1"
      using show_all_expanded(2)[of "map (setHiddenAll True) cs1"] ac u by simp
    have "click inh ?n2 d1 = Inr (Node (i1 \<lparr> isExpanded := True, el := Some e1 \<rparr>) cs1, d1)"
      using e1 np se[unfolded cs1] cs1 e1'[unfolded N cs1]
      by (simp add: click_def toggleNode_def setCaretIconDown_def setCaretIcon_def N)
    then show ?thesis using i1 N by simp
  qed
  from a b show ?thesis by blast
qed

lemma doc_deep_ref_first_click:
  "(case andThen (andThen (renderJSON noParse inh doc_deep_ref dom0) (clickAt inh [])) (clickAt inh [0]) of
      Inr (t, d) \<Rightarrow>
        (case node_at t [0, 0] of
           Some n \<Rightarrow>
             (case children n of
                c # cs \<Rightarrow>
                  isPending (info c) \<and> \<not> isExpanded (info n)
                  \<and> (case click inh n d of Inr (n1, d1) \<Rightarrow> children n1 \<noteq> [] | Inl e \<Rightarrow> False)
              | [] \<Rightarrow> False)
         | None \<Rightarrow> False)
    | Inl e \<Rightarrow> False)"
  by code_simp

theorem toggle_again_witness:
  "\<exists>t d n c cs n1 d1 n2.
     andThen (andThen (renderJSON noParse noInherited doc_deep_ref dom0) (clickAt noInherited [])) (clickAt noInherited [0]) = Inr (t, d)
     \<and> node_at t [0, 0] = Some n \<and> children n = c # cs \<and> isPending (info c)
     \<and> \<not> isExpanded (info n) \<and> click noInherited n d = Inr (n1, d1) \<and> children n1 \<noteq> []
     \<and> click noInherited n1 d1 = Inr (n2, d1) \<and> click noInherited n2 d1 = Inr (n1, d1)"
proof -
  let ?r = "andThen (andThen (renderJSON noParse noInherited doc_deep_ref dom0) (clickAt noInherited [])) (clickAt noInherited [0])"
  from doc_deep_ref_first_click[of noInherited] obtain t d where h1: "?r = Inr (t, d)"
    and r1: "(case node_at t [0, 0] of
           Some n \<Rightarrow>
             (case children n of
                c # cs \<Rightarrow>
                  isPending (info c) \<and> \<not> isExpanded (info n)
                  \<and> (case click noInherited n d of Inr (n1, d1) \<Rightarrow> children n1 \<noteq> [] | Inl e \<Rightarrow> False)
              | [] \<Rightarrow> False)
         | None \<Rightarrow> False)"
    by (cases ?r) auto
  from r1 obtain n where h2: "node_at t [0, 0] = Some n"
    and r2: "(case children n of
                c # cs \<Rightarrow>
                  isPending (info c) \<and> \<not> isExpanded (info n)
                  \<and> (case click noInherited n d of Inr (n1, d1) \<Rightarrow> children n1 \<noteq> [] | Inl e \<Rightarrow> False)
              | [] \<Rightarrow> False)"
    by (cases "node_at t [0, 0]") auto
  from r2 obtain c cs where h3: "children n = c # cs" "isPending (info c)" "\<not> isExpanded (info n)"
    and r3: "(case click noInherited n d of Inr (n1, d1) \<Rightarrow> children n1 \<noteq> [] | Inl e \<Rightarrow> False)"
    by (cases "children n") auto
  from r3 obtain n1 d1 where h4: "click noInherited n d = Inr (n1, d1)" "children n1 \<noteq> []"
    by (cases "click noInherited n d") auto
  note h = h1 h2 h3 h4
  from toggle_again[OF h3 h4] obtain n2 where
    "click noInherited n1 d1 = Inr (n2, d1)" "click noInherited n2 d1 = Inr (n1, d1)" by blast
  with h show ?thesis by blast
qed

section \<open>The invariant of the rendered tree\<close>

lemma hasCaret_stripLine: "stripLine t' = stripLine t \<Longrightarrow> hasCaret t' = hasCaret t"
  by (cases t; cases t') auto

lemma sizeLabel_stripLine:
  "el (info n) = Some e \<Longrightarrow> el (info n') = Some e' \<Longrightarrow> stripLine (line e') = stripLine (line e) \<Longrightarrow>
     sizeLabel n' = sizeLabel n"
  by (cases "line e"; cases "line e'") (auto simp: sizeLabel_def)

lemma tree_rel_top: "tree_rel Q n n' \<Longrightarrow> Q n (info n')"
  by (cases n; cases n') simp

lemma tree_rel_refl: "(\<And>m. Q m (info m)) \<Longrightarrow> tree_rel Q n n"
proof (induction n)
  case (Node i cs)
  have "Q (Node i cs) i" using Node.prems[of "Node i cs"] by simp
  moreover have "list_all2 (tree_rel Q) cs cs" using Node by (simp add: list_all2_same)
  ultimately show ?case by simp
qed

lemma Qcos_refl: "Qcos m (info m)"
  by (auto simp: Qcos_def split: option.splits)

lemma cosmetic_refl: "tree_rel Qcos n n"
  by (rule tree_rel_refl) (rule Qcos_refl)

lemma tree_rel_types_ok: 
  "tree_rel Q n n' \<Longrightarrow> (\<And>m i. Q m i \<Longrightarrow> type' i = type' (info m)) \<Longrightarrow> types_ok n \<Longrightarrow> types_ok n'"
proof (induction n arbitrary: n')
  case (Node i cs)
  obtain i' cs' where n': "n' = Node i' cs'" by (cases n')
  from Node.prems(1) n' have q: "Q (Node i cs) i'" and l: "list_all2 (tree_rel Q) cs cs'" by auto
  have len: "length cs' = length cs" using l by (auto dest: list_all2_lengthD)
  have ch: "\<forall>c \<in> set cs'. types_ok c"
  proof
    fix c assume "c \<in> set cs'"
    then obtain k where k: "k < length cs'" "c = cs' ! k" by (auto simp: in_set_conv_nth)
    with l len have "tree_rel Q (cs ! k) c" by (auto dest: list_all2_nthD)
    moreover have "cs ! k \<in> set cs" using k len by simp
    moreover have "types_ok (cs ! k)" using Node.prems(3) \<open>cs ! k \<in> set cs\<close> by simp
    ultimately show "types_ok c" using Node.IH Node.prems(2) by blast
  qed
  from len have e: "cs' = [] \<longleftrightarrow> cs = []" by auto
  from Node.prems(2)[OF q] Node.prems(3) ch e show ?case unfolding n' by auto
qed

lemma tree_rel_refPending:
  assumes "list_all2 (tree_rel Q) cs cs'"
    and Q: "\<And>m i. Q m i \<Longrightarrow> key i = key (info m) \<and> isPending i = isPending (info m)"
  shows "(\<exists>c \<in> set cs'. refPending c) = (\<exists>c \<in> set cs. refPending c)"
proof -
  have len: "length cs' = length cs" using assms by (auto dest: list_all2_lengthD)
  have r: "refPending (cs' ! k) = refPending (cs ! k)" if "k < length cs" for k
  proof -
    from assms(1) that have t: "tree_rel Q (cs ! k) (cs' ! k)" by (auto dest: list_all2_nthD)
    from Q[OF tree_rel_top[OF t]] show ?thesis by (simp add: refPending_def)
  qed
  show ?thesis
  proof
    assume "\<exists>c \<in> set cs'. refPending c"
    then obtain k where "k < length cs'" "refPending (cs' ! k)" by (auto simp: in_set_conv_nth)
    with len r have "k < length cs" "refPending (cs ! k)" by auto
    then show "\<exists>c \<in> set cs. refPending c" using nth_mem by blast
  next
    assume "\<exists>c \<in> set cs. refPending c"
    then obtain k where "k < length cs" "refPending (cs ! k)" by (auto simp: in_set_conv_nth)
    with len r have "k < length cs'" "refPending (cs' ! k)" by auto
    then show "\<exists>c \<in> set cs'. refPending c" using nth_mem by blast
  qed
qed

lemma tree_rel_values:
  assumes "list_all2 (tree_rel Q) cs cs'"
    and Q: "\<And>m i. Q m i \<Longrightarrow> value' i = value' (info m)"
  shows "map (\<lambda>c. value' (info c)) cs' = map (\<lambda>c. value' (info c)) cs"
  using assms(1)
proof (induction rule: list_all2_induct)
  case Nil
  then show ?case by simp
next
  case (Cons c cs c' cs')
  from Q[OF tree_rel_top[OF Cons.hyps(1)]] Cons.IH show ?case by simp
qed

lemma resolveref_cong:
  "parsedData (info n') = parsedData (info n) \<Longrightarrow>
   map (\<lambda>c. value' (info c)) (children n') = map (\<lambda>c. value' (info c)) (children n) \<Longrightarrow>
     resolveref inh n' = resolveref inh n"
  by (cases "children n"; cases "children n'") (auto simp: resolveref_def split: json.splits)

lemma refCount_cong:
  "parsedData (info n') = parsedData (info n) \<Longrightarrow>
   map (\<lambda>c. value' (info c)) (children n') = map (\<lambda>c. value' (info c)) (children n) \<Longrightarrow>
     refCount inh n' = refCount inh n"
  using resolveref_cong[of n' n inh] by (simp add: refCount_def)

lemma labelOk_cong:
  "sizeLabel n' = sizeLabel n \<Longrightarrow> length (children n') = length (children n) \<Longrightarrow>
   list_ex refPending (children n') = list_ex refPending (children n) \<Longrightarrow>
   refCount inh n' = refCount inh n \<Longrightarrow> labelOk inh n' = labelOk inh n"
  by (simp add: labelOk_def split: option.splits)

lemma cosmetic_elems_ok: "tree_rel Qcos n n' \<Longrightarrow> elems_ok inh n \<Longrightarrow> elems_ok inh n'"
proof (induction n arbitrary: n')
  case (Node i cs)
  obtain i' cs' where n': "n' = Node i' cs'" by (cases n')
  from Node.prems(1) n' have q: "Qcos (Node i cs) i'" and l: "list_all2 (tree_rel Qcos) cs cs'" by auto
  have len: "length cs' = length cs" using l by (auto dest: list_all2_lengthD)
  have ch: "\<forall>c \<in> set cs'. elems_ok inh c"
  proof
    fix c assume "c \<in> set cs'"
    then obtain k where k: "k < length cs'" "c = cs' ! k" by (auto simp: in_set_conv_nth)
    with l len have "tree_rel Qcos (cs ! k) c" by (auto dest: list_all2_nthD)
    moreover have "cs ! k \<in> set cs" using k len by simp
    moreover have "elems_ok inh (cs ! k)" using Node.prems(2) \<open>cs ! k \<in> set cs\<close> by simp
    ultimately show "elems_ok inh c" using Node.IH by blast
  qed
  from len have e: "cs' = [] \<longleftrightarrow> cs = []" by auto
  have k: "isPending i' \<longleftrightarrow> el i' = None"
    using q Node.prems(2) by (auto simp: Qcos_def split: option.splits)
  have c: "\<forall>e. el i' = Some e \<longrightarrow> (hasCaret (line e) \<longleftrightarrow> cs' \<noteq> [])"
    using q Node.prems(2) e by (auto simp: Qcos_def split: option.splits dest: hasCaret_stripLine)
  have sl: "sizeLabel (Node i' cs') = sizeLabel (Node i cs)"
  proof (cases "el i")
    case None
    with q have "el i' = None" by (simp add: Qcos_def)
    with None show ?thesis by (simp add: sizeLabel_def)
  next
    case (Some e)
    with q obtain e' where e': "el i' = Some e'" "stripLine (line e') = stripLine (line e)"
      by (auto simp: Qcos_def)
    show ?thesis
      using sizeLabel_stripLine[of "Node i cs" e "Node i' cs'" e'] Some e' by simp
  qed
  have rp: "list_ex refPending cs' = list_ex refPending cs"
    using tree_rel_refPending[OF l, of ] by (simp add: list_ex_iff Qcos_def)
  have va: "map (\<lambda>c. value' (info c)) cs' = map (\<lambda>c. value' (info c)) cs"
    by (rule tree_rel_values[OF l]) (simp add: Qcos_def)
  have rc: "refCount inh (Node i' cs') = refCount inh (Node i cs)"
    using q va by (intro refCount_cong) (simp_all add: Qcos_def)
  have "labelOk inh (Node i' cs') = labelOk inh (Node i cs)"
    using sl len rp rc by (intro labelOk_cong) simp_all
  moreover have "labelOk inh (Node i cs)" using Node.prems(2) by simp
  ultimately have lab: "labelOk inh (Node i' cs')" by simp
  from k c lab ch show ?case unfolding n' by simp
qed

lemma digitVal_digit: "d < 10 \<Longrightarrow> digitVal (digit d) = Some d"
  by (simp add: digitVal_def digit_def Let_def)

lemma parseDigits_snoc:
  "parseDigits acc (xs @ [c]) =
     (case parseDigits acc xs of
        None \<Rightarrow> None
      | Some a \<Rightarrow> (case digitVal c of None \<Rightarrow> None | Some d \<Rightarrow> Some (10 * a + d)))"
  by (induction xs arbitrary: acc) (auto split: option.splits)

lemma parseDigits_show_nat: "parseDigits 0 (show_nat n) = Some n"
proof (induction n rule: show_nat.induct)
  case (1 n)
  show ?case
  proof (cases "n < 10")
    case True
    then show ?thesis by (subst show_nat.simps) (simp add: digitVal_digit)
  next
    case False
    have "parseDigits 0 (show_nat (n div 10)) = Some (n div 10)" using 1 False by simp
    moreover have "digitVal (digit (n mod 10)) = Some (n mod 10)" by (simp add: digitVal_digit)
    ultimately show ?thesis using False
      by (subst show_nat.simps) (simp add: parseDigits_snoc)
  qed
qed

lemma show_nat_nonempty: "show_nat n \<noteq> []"
  by (subst show_nat.simps) simp

lemma labelNumeral_brackets: "labelNumeral (a # show_nat n @ [b]) = Some n"
proof -
  have "length (show_nat n) > 0" using show_nat_nonempty by simp
  then show ?thesis by (simp add: labelNumeral_def butlast_append parseDigits_show_nat)
qed

lemma labelNumeral_sizeText:
  "type' (info n) = Some ''array'' \<or> type' (info n) = Some ''object'' \<Longrightarrow>
     labelNumeral (sizeText n) = Some (length (children n))"
  using labelNumeral_brackets[of "CHR ''[''" "length (children n)" "CHR '']''"]
    labelNumeral_brackets[of "CHR ''{''" "length (children n)" "CHR ''}''"]
  by (auto simp: sizeText_def getSizeString_def Let_def)

lemma shown_Node: "shown (Node i cs) = (\<exists>e. el i = Some e \<and> \<not> hidden e)"
  by (auto simp: shown_def split: option.splits)

lemma opened_tree_ok: "opened n \<Longrightarrow> types_ok n \<Longrightarrow> elems_ok inh n \<and> consistent True n"
proof (induction n)
  case (Node i cs)
  from Node.prems obtain e where e: "el i = Some e" "\<not> hidden e"
      "if cs = [] then (\<exists>k v t. line e = NotExpandedT k v t)
       else line e = ExpandedT (keyString (key i)) (sizeText (Node i cs)) CaretDown"
    and x: "isExpanded i" "\<not> isPending i" by auto
  have ch: "\<forall>c \<in> set cs. elems_ok inh c \<and> consistent True c" using Node by auto
  have np: "\<not> list_ex refPending cs"
    using Node.prems(1) opened_not_pending by (auto simp: list_ex_iff refPending_def)
  have lab: "labelOk inh (Node i cs)"
  proof (cases "cs = []")
    case True
    with e show ?thesis by (auto simp: labelOk_def sizeLabel_def)
  next
    case False
    with Node.prems(2) have "type' i = Some ''array'' \<or> type' i = Some ''object''" by simp
    from labelNumeral_sizeText[of "Node i cs"] this have "labelNumeral (sizeText (Node i cs)) = Some (length cs)"
      by simp
    with e False np show ?thesis by (auto simp: labelOk_def sizeLabel_def)
  qed
  have c: "\<forall>e'. el i = Some e' \<longrightarrow> (hasCaret (line e') \<longleftrightarrow> cs \<noteq> [])"
    using e by (auto split: if_splits)
  show ?case using e x ch lab c by (auto simp: shown_Node)
qed

lemma consistent_False_hidden: "consistent False c \<Longrightarrow> setHiddenAll True c = c"
proof (induction c)
  case (Node i cs)
  then have m: "map (setHiddenAll True) cs = cs" by (intro map_idI) auto
  from Node.prems have "el i = None \<or> (\<exists>e. el i = Some e \<and> hidden e)"
    by (auto simp: shown_Node)
  then have "i \<lparr> el := map_option (\<lambda>e. e \<lparr> hidden := True \<rparr>) (el i) \<rparr> = i"
  proof
    assume "el i = None"
    then show ?thesis by (cases i) auto
  next
    assume "\<exists>e. el i = Some e \<and> hidden e"
    then obtain e where e: "el i = Some e" "hidden e" by auto
    then have "e \<lparr> hidden := True \<rparr> = e" by (cases e) auto
    with e show ?thesis by (cases i) auto
  qed
  with m show ?case by simp
qed

lemma setHiddenAll_True_consistent: "consistent False (setHiddenAll True c)"
  by (induction c) (auto simp: shown_Node)

lemma setHiddenAll_cosmetic: "tree_rel Qcos c (setHiddenAll h c)"
proof (induction c)
  case (Node i cs)
  have "Qcos (Node i cs) (i \<lparr> el := map_option (\<lambda>e. e \<lparr> hidden := h \<rparr>) (el i) \<rparr>)"
    by (auto simp: Qcos_def split: option.splits)
  moreover have "list_all2 (tree_rel Qcos) cs (map (setHiddenAll h) cs)"
    using Node by (simp add: list_all2_conv_all_nth)
  ultimately show ?case by simp
qed

lemma hide_consistent:
  "(\<forall>c \<in> set (children n). consistent v c) \<Longrightarrow> hideNodeChildren n = Inr n' \<Longrightarrow>
     n' = Node (info n) (map (setHiddenAll True) (children n))"
  "(\<forall>c \<in> set cs. consistent v c) \<Longrightarrow> hideEach cs = Inr cs' \<Longrightarrow>
     cs' = map (setHiddenAll True) cs"
proof (induction n and cs arbitrary: v n' and v cs' rule: hideNodeChildren_hideEach.induct)
  case (1 i cs)
  then show ?case by (auto split: sum.splits)
next
  case 2
  then show ?case by simp
next
  case (3 i gs cs)
  from 3(4) obtain i2 where s: "setHidden True i = Inr i2" by (auto split: sum.splits)
  then obtain e where e: "el i = Some e" "i2 = i \<lparr> el := Some (e \<lparr> hidden := True \<rparr>) \<rparr>"
    by (auto simp: setHidden_def split: option.splits)
  from 3(4) s obtain c' cs2 where
    h: "(if isExpanded i2 then hideNodeChildren (Node i2 gs) else Inr (Node i2 gs)) = Inr c'"
    and t: "hideEach cs = Inr cs2" and r: "cs' = c' # cs2"
    by (auto split: sum.splits)
  from 3(3) have g: "\<forall>c \<in> set gs. consistent (v \<and> isExpanded i) c"
    and rest: "\<forall>c \<in> set cs. consistent v c" by auto
  have c': "c' = setHiddenAll True (Node i gs)"
  proof (cases "isExpanded i2")
    case True
    with h have hh: "hideNodeChildren (Node i2 gs) = Inr c'" by simp
    from 3(1)[OF s True _ hh, of "v \<and> isExpanded i"] g have "c' = Node i2 (map (setHiddenAll True) gs)"
      by simp
    then show ?thesis using e by simp
  next
    case False
    with h have "c' = Node i2 gs" by simp
    moreover from False e g have "\<forall>c \<in> set gs. consistent False c" by simp
    then have "map (setHiddenAll True) gs = gs" by (intro map_idI) (simp add: consistent_False_hidden)
    ultimately show ?thesis using e by simp
  qed
  from 3(2)[OF s h rest t] c' r show ?case by simp
qed

lemma show_consistent:
  "(\<forall>c \<in> set (children n). consistent False c) \<Longrightarrow> showNodeChildren n = Inr n' \<Longrightarrow>
     info n' = info n \<and> list_all2 (tree_rel Qcos) (children n) (children n')
     \<and> (\<forall>c' \<in> set (children n'). consistent True c')"
  "(\<forall>c \<in> set cs. consistent False c) \<Longrightarrow> showEach cs = Inr cs' \<Longrightarrow>
     list_all2 (tree_rel Qcos) cs cs' \<and> (\<forall>c' \<in> set cs'. consistent True c')"
proof (induction n and cs arbitrary: n' and cs' rule: showNodeChildren_showEach.induct)
  case (1 i cs)
  from 1(3) obtain cs2 where "showEach cs = Inr cs2" "n' = Node i cs2" by (auto split: sum.splits)
  with 1(1)[of cs2] 1(2) show ?case by simp
next
  case 2
  then show ?case by simp
next
  case (3 i gs cs)
  from 3(4) obtain i2 where s: "setHidden False i = Inr i2" by (auto split: sum.splits)
  then obtain e where e: "el i = Some e" "i2 = i \<lparr> el := Some (e \<lparr> hidden := False \<rparr>) \<rparr>"
    by (auto simp: setHidden_def split: option.splits)
  from 3(4) s obtain c' cs2 where
    h: "(if isExpanded i2 then showNodeChildren (Node i2 gs) else Inr (Node i2 gs)) = Inr c'"
    and t: "showEach cs = Inr cs2" and r: "cs' = c' # cs2"
    by (auto split: sum.splits)
  from 3(3) have g: "\<forall>c \<in> set gs. consistent False c"
    and rest: "\<forall>c \<in> set cs. consistent False c" by auto
  have q: "Qcos (Node i gs) i2" using e by (auto simp: Qcos_def)
  have c': "tree_rel Qcos (Node i gs) c' \<and> consistent True c'"
  proof (cases "isExpanded i2")
    case True
    with h have hh: "showNodeChildren (Node i2 gs) = Inr c'" by simp
    from 3(1)[OF s True _ hh] g have a: "info c' = i2" "list_all2 (tree_rel Qcos) gs (children c')"
      "\<forall>c \<in> set (children c'). consistent True c" by auto
    obtain i3 gs3 where c3: "c' = Node i3 gs3" by (cases c')
    with a q True e show ?thesis by (auto simp: shown_Node)
  next
    case False
    with h have "c' = Node i2 gs" by simp
    moreover have "list_all2 (tree_rel Qcos) gs gs"
      by (simp add: list_all2_same cosmetic_refl)
    ultimately show ?thesis using q g False e by (auto simp: shown_Node)
  qed
  from 3(2)[OF s h rest t] c' r show ?case by simp
qed

lemma hide_cosmetic:
  "hideNodeChildren n = Inr n' \<Longrightarrow>
     info n' = info n \<and> list_all2 (tree_rel Qcos) (children n) (children n')"
  "hideEach cs = Inr cs' \<Longrightarrow> list_all2 (tree_rel Qcos) cs cs'"
proof (induction n and cs arbitrary: n' and cs' rule: hideNodeChildren_hideEach.induct)
  case (1 i cs)
  from 1(2) obtain cs2 where "hideEach cs = Inr cs2" "n' = Node i cs2" by (auto split: sum.splits)
  with 1(1)[of cs2] show ?case by simp
next
  case 2
  then show ?case by simp
next
  case (3 i gs cs)
  from 3(3) obtain i2 where s: "setHidden True i = Inr i2" by (auto split: sum.splits)
  then obtain e where e: "el i = Some e" "i2 = i \<lparr> el := Some (e \<lparr> hidden := True \<rparr>) \<rparr>"
    by (auto simp: setHidden_def split: option.splits)
  from 3(3) s obtain c' cs2 where
    h: "(if isExpanded i2 then hideNodeChildren (Node i2 gs) else Inr (Node i2 gs)) = Inr c'"
    and t: "hideEach cs = Inr cs2" and r: "cs' = c' # cs2"
    by (auto split: sum.splits)
  have q: "Qcos (Node i gs) i2" using e by (auto simp: Qcos_def)
  have c': "tree_rel Qcos (Node i gs) c'"
  proof (cases "isExpanded i2")
    case True
    with h have hh: "hideNodeChildren (Node i2 gs) = Inr c'" by simp
    from 3(1)[OF s True hh] have a: "info c' = i2" "list_all2 (tree_rel Qcos) gs (children c')"
      by auto
    obtain i3 gs3 where c3: "c' = Node i3 gs3" by (cases c')
    with a q show ?thesis by auto
  next
    case False
    with h have "c' = Node i2 gs" by simp
    moreover have "list_all2 (tree_rel Qcos) gs gs"
      by (simp add: list_all2_same cosmetic_refl)
    ultimately show ?thesis using q by auto
  qed
  from 3(2)[OF s h t] c' r show ?case by simp
qed

lemma show_cosmetic:
  "showNodeChildren n = Inr n' \<Longrightarrow>
     info n' = info n \<and> list_all2 (tree_rel Qcos) (children n) (children n')"
  "showEach cs = Inr cs' \<Longrightarrow> list_all2 (tree_rel Qcos) cs cs'"
proof (induction n and cs arbitrary: n' and cs' rule: showNodeChildren_showEach.induct)
  case (1 i cs)
  from 1(2) obtain cs2 where "showEach cs = Inr cs2" "n' = Node i cs2" by (auto split: sum.splits)
  with 1(1)[of cs2] show ?case by simp
next
  case 2
  then show ?case by simp
next
  case (3 i gs cs)
  from 3(3) obtain i2 where s: "setHidden False i = Inr i2" by (auto split: sum.splits)
  then obtain e where e: "el i = Some e" "i2 = i \<lparr> el := Some (e \<lparr> hidden := False \<rparr>) \<rparr>"
    by (auto simp: setHidden_def split: option.splits)
  from 3(3) s obtain c' cs2 where
    h: "(if isExpanded i2 then showNodeChildren (Node i2 gs) else Inr (Node i2 gs)) = Inr c'"
    and t: "showEach cs = Inr cs2" and r: "cs' = c' # cs2"
    by (auto split: sum.splits)
  have q: "Qcos (Node i gs) i2" using e by (auto simp: Qcos_def)
  have c': "tree_rel Qcos (Node i gs) c'"
  proof (cases "isExpanded i2")
    case True
    with h have hh: "showNodeChildren (Node i2 gs) = Inr c'" by simp
    from 3(1)[OF s True hh] have a: "info c' = i2" "list_all2 (tree_rel Qcos) gs (children c')"
      by auto
    obtain i3 gs3 where c3: "c' = Node i3 gs3" by (cases c')
    with a q show ?thesis by auto
  next
    case False
    with h have "c' = Node i2 gs" by simp
    moreover have "list_all2 (tree_rel Qcos) gs gs"
      by (simp add: list_all2_same cosmetic_refl)
    ultimately show ?thesis using q by auto
  qed
  from 3(2)[OF s h t] c' r show ?case by simp
qed

lemma expandCallback_Qcos: "expandCallback m s = Inr (i, s') \<Longrightarrow> Qcos m i"
  by (auto simp: expandCallback_def setHidden_def setCaretIconDown_def setCaretIcon_def Qcos_def
      split: option.splits template.splits if_splits sum.splits)

lemma collapseCallback_Qcos: "collapseCallback n m s = Inr (i, s') \<Longrightarrow> Qcos m i"
  by (auto simp: collapseCallback_def setHidden_def setCaretIconRight_def setCaretIcon_def Qcos_def
      Let_def split: option.splits template.splits if_splits sum.splits)

lemma expand_cosmetic: "expand n = Inr n' \<Longrightarrow> tree_rel Qcos n n'"
proof -
  assume "expand n = Inr n'"
  then obtain u where t: "traverse expandCallback n () = Inr (n', u)"
    by (auto simp: expand_def split: sum.splits)
  show ?thesis
    by (rule traverse_rel(1)[where cb = expandCallback, OF _ t]) (rule expandCallback_Qcos)
qed

lemma collapse_cosmetic: "collapse n = Inr n' \<Longrightarrow> tree_rel Qcos n n'"
proof -
  assume "collapse n = Inr n'"
  then obtain u where t: "traverse (collapseCallback n) n () = Inr (n', u)"
    by (auto simp: collapse_def split: sum.splits)
  show ?thesis
    by (rule traverse_rel(1)[where cb = "collapseCallback n", OF _ t]) (rule collapseCallback_Qcos)
qed

lemma replace_at_cosmetic:
  "node_at t p = Some n \<Longrightarrow> tree_rel Qcos n n' \<Longrightarrow> tree_rel Qcos t (replace_at t p n')"
proof (induction p arbitrary: t)
  case Nil
  then show ?case by simp
next
  case (Cons j p)
  obtain i cs where t: "t = Node i cs" by (cases t)
  from Cons.prems(1) t have j: "j < length cs" and m: "node_at (cs ! j) p = Some n"
    by (auto split: if_splits)
  from Cons.IH[OF m Cons.prems(2)] have r: "tree_rel Qcos (cs ! j) (replace_at (cs ! j) p n')" .
  have "list_all2 (tree_rel Qcos) cs (cs[j := replace_at (cs ! j) p n'])"
    unfolding list_all2_conv_all_nth
  proof (intro conjI allI impI)
    show "length cs = length (cs[j := replace_at (cs ! j) p n'])" by simp
  next
    fix k assume "k < length cs"
    then show "tree_rel Qcos (cs ! k) (cs[j := replace_at (cs ! j) p n'] ! k)"
      using r cosmetic_refl by (cases "k = j") auto
  qed
  moreover have "Qcos (Node i cs) i" using Qcos_refl[of "Node i cs"] by simp
  ultimately show ?case using t j by simp
qed

lemma show_opened: "opened n \<Longrightarrow> showNodeChildren n = Inr n"
proof -
  assume o: "opened n"
  have "\<forall>c \<in> set (children n). all_expanded c"
    using o opened_all_expanded by (cases n) auto
  from show_all_expanded(1)[OF this] have "showNodeChildren n = Inr (setHiddenAll False n)"
    using o by (cases n) auto
  then show ?thesis using opened_show[OF o] by simp
qed

lemma types_ok_createSubnode:
  "children node = [] \<Longrightarrow> type' (info node) = Some (getDataType data) \<Longrightarrow>
     types_ok (createSubnode data node late)"
proof (induction data node late rule: createSubnode.induct)
  case (1 data node late)
  show ?case
  proof (cases "typeof data = ''object''")
    case True
    have ch: "types_ok (createSubnode (snd kv) (newChild node late kv) late)"
      if "kv \<in> set (forin data)" for kv
      using 1(1)[OF True refl that refl] by (simp add: newChild_def createNode_def Let_def)
    have top: "forin data \<noteq> [] \<longrightarrow> getDataType data = ''array'' \<or> getDataType data = ''object''"
      by (cases data) (auto simp: forin_def)
    show ?thesis using True 1(2,3) ch top
      by (subst createSubnode_map) (cases node, auto)
  next
    case False
    then show ?thesis using 1(2) by (subst createSubnode_map) (cases node, auto)
  qed
qed

lemma types_ok_newChild:
  "types_ok (createSubnode (snd kv) (newChild node late kv) late)"
  by (rule types_ok_createSubnode) (simp_all add: newChild_def createNode_def Let_def)

lemma types_ok_extend:
  assumes "types_ok n" "children n \<noteq> []" "extendNodeElementByRef inh n = Inr n1"
  shows "types_ok n1 \<and> info n1 = info n"
proof -
  obtain i cs where n: "n = Node i cs" by (cases n)
  from assms(3) obtain parsed where
    n1: "n1 = (let node = (case parsed of Val v \<Rightarrow> createSubnode v n False | _ \<Rightarrow> n)
               in Node (info node) (drop 1 (children node)))"
    by (auto simp: extendNodeElementByRef_def Let_def split: sum.splits)
  show ?thesis
  proof (cases parsed)
    case Undefined
    with n1 n assms(1,2) show ?thesis by (auto dest: in_set_dropD)
  next
    case (Host h)
    with n1 n assms(1,2) show ?thesis by (auto dest: in_set_dropD)
  next
    case (Val v)
    have "set (children (createSubnode v n False)) \<subseteq>
            set cs \<union> (\<lambda>kv. createSubnode (snd kv) (newChild n False kv) False) ` set (forin v)"
      by (subst createSubnode_map) (auto simp: n)
    then have "\<forall>c \<in> set (children (createSubnode v n False)). types_ok c"
      using assms(1) n types_ok_newChild by auto
    with n1 Val n assms(1,2) show ?thesis by (auto simp: Let_def dest: in_set_dropD)
  qed
qed

lemma Qmat_type: "Qmat m i \<Longrightarrow> type' i = type' (info m)"
  by (simp add: Qmat_def)

lemma Qexp_type: "Qexp m i \<Longrightarrow> type' i = type' (info m)"
  by (simp add: Qexp_def)

lemma Qcos_type: "Qcos m i \<Longrightarrow> type' i = type' (info m)"
  by (simp add: Qcos_def)

lemma materialize_expand_fields:
  assumes "traverse materialize n s = Inr (n2, s2)" "expand n2 = Inr n3" "types_ok n"
  shows "opened n3 \<and> types_ok n3 \<and> key (info n3) = key (info n)
         \<and> value' (info n3) = value' (info n) \<and> parsedData (info n3) = parsedData (info n)"
proof -
  have 1: "tree_rel Qmat n n2"
    by (rule traverse_rel(1)[where cb = materialize, OF _ assms(1)]) (rule materialize_Qmat)
  from assms(2) obtain u where t: "traverse expandCallback n2 () = Inr (n3, u)"
    by (auto simp: expand_def split: sum.splits)
  have 2: "tree_rel Qexp n2 n3"
    by (rule traverse_rel(1)[where cb = expandCallback, OF _ t]) (rule expandCallback_Qexp)
  have o: "opened n3" using tree_rel_Qexp[OF tree_rel_Qmat[OF 1] 2] .
  have ty: "types_ok n3"
    using tree_rel_types_ok[OF 2 Qexp_type tree_rel_types_ok[OF 1 Qmat_type assms(3)]] .
  have "key (info n3) = key (info n)" "value' (info n3) = value' (info n)"
    "parsedData (info n3) = parsedData (info n)"
    using tree_rel_top[OF 1] tree_rel_top[OF 2] by (simp_all add: Qmat_def Qexp_def)
  with o ty show ?thesis by simp
qed

lemma click_elems_ok:
  assumes ty: "types_ok n" and el: "elems_ok inh n" and c: "click inh n d = Inr (n', d')"
  shows "types_ok n' \<and> elems_ok inh n' \<and> isPending (info n') = isPending (info n)
         \<and> key (info n') = key (info n) \<and> value' (info n') = value' (info n)
         \<and> parsedData (info n') = parsedData (info n)"
proof -
  obtain i cs where n: "n = Node i cs" by (cases n)
  from c n obtain e k sz ic where e: "el i = Some e" "line e = ExpandedT k sz ic" "\<not> hidden e"
    and t: "toggleNode inh (elid e) n d = Inr (n', d')"
    by (auto simp: click_def split: option.splits template.splits if_splits)
  from el n e have ne: "cs \<noteq> []" and np: "\<not> isPending i" by auto
  show ?thesis
  proof (cases "isExpanded i")
    case True
    let ?i2 = "i \<lparr> isExpanded := False, el := Some (e \<lparr> line := ExpandedT k sz CaretRight \<rparr>) \<rparr>"
    from t True n e ne have h: "hideNodeChildren (Node ?i2 cs) = Inr n'"
      by (auto simp: toggleNode_def setCaretIconRight_def setCaretIcon_def split: sum.splits)
    from hide_cosmetic(1)[OF h] have a: "info n' = ?i2"
      "list_all2 (tree_rel Qcos) cs (children n')" by auto
    have q: "Qcos (Node i cs) ?i2" using e by (simp add: Qcos_def)
    obtain i3 cs3 where n': "n' = Node i3 cs3" by (cases n')
    have r: "tree_rel Qcos n n'" using a q n n' by simp
    have 1: "types_ok n'" using tree_rel_types_ok[OF r Qcos_type ty] .
    have 2: "elems_ok inh n'" using cosmetic_elems_ok[OF r el] .
    from 1 2 a(1) n show ?thesis by simp
  next
    case False
    let ?i2 = "i \<lparr> isExpanded := True, el := Some (e \<lparr> line := ExpandedT k sz CaretDown \<rparr>) \<rparr>"
    from ne obtain c1 cs1 where cs: "cs = c1 # cs1" by (cases cs) auto
    have q: "Qcos (Node i cs) ?i2" using e by (simp add: Qcos_def)
    show ?thesis
    proof (cases "isPending (info c1)")
      case True
      from t False n e cs True obtain node1 node2 s2 node3 where
        x: "(if key (info c1) = Some ''$ref'' then extendNodeElementByRef inh (Node ?i2 cs)
             else Inr (Node ?i2 cs)) = Inr node1"
        and m: "traverse materialize node1 ([], d) = Inr (node2, s2)"
        and ex: "expand node2 = Inr node3"
        and s: "showNodeChildren node3 = Inr n'"
        by (auto simp: toggleNode_def setCaretIconDown_def setCaretIcon_def
            split: sum.splits if_splits prod.splits)
      have ty2: "types_ok (Node ?i2 cs)" using ty n by simp
      have n1: "types_ok node1 \<and> info node1 = ?i2"
      proof (cases "key (info c1) = Some ''$ref''")
        case True
        with x have "extendNodeElementByRef inh (Node ?i2 cs) = Inr node1" by simp
        from types_ok_extend[OF ty2 _ this] ne show ?thesis by simp
      next
        case False
        with x ty2 show ?thesis by auto
      qed
      from materialize_expand_fields[OF m ex] n1
      have o: "opened node3" "types_ok node3" "key (info node3) = key i"
        "value' (info node3) = value' i" "parsedData (info node3) = parsedData i" by auto
      from show_opened[OF o(1)] s have n': "n' = node3" by simp
      from opened_tree_ok[OF o(1,2)] have 1: "elems_ok inh node3" by auto
      have 2: "\<not> isPending (info node3)" using o(1) by (cases node3) auto
      from 1 2 o n np show ?thesis unfolding n' by simp
    next
      case np1: False
      from t False n e cs np1 have s: "showNodeChildren (Node ?i2 cs) = Inr n'"
        by (auto simp: toggleNode_def setCaretIconDown_def setCaretIcon_def split: sum.splits)
      from show_cosmetic(1)[OF s] have a: "info n' = ?i2"
        "list_all2 (tree_rel Qcos) cs (children n')" by auto
      obtain i3 cs3 where n': "n' = Node i3 cs3" by (cases n')
      have r: "tree_rel Qcos n n'" using a q n n' by simp
      have 1: "types_ok n'" using tree_rel_types_ok[OF r Qcos_type ty] .
      have 2: "elems_ok inh n'" using cosmetic_elems_ok[OF r el] .
      from 1 2 a(1) n show ?thesis by simp
    qed
  qed
qed

lemma click_consistent:
  assumes ok: "tree_ok inh n" and c: "click inh n d = Inr (n', d')"
  shows "shown n \<and> shown n' \<and> consistent True n'"
proof -
  obtain i cs where n: "n = Node i cs" by (cases n)
  from c n obtain e k sz ic where e: "el i = Some e" "line e = ExpandedT k sz ic" "\<not> hidden e"
    and t: "toggleNode inh (elid e) n d = Inr (n', d')"
    by (auto simp: click_def split: option.splits template.splits if_splits)
  from ok n have ty: "types_ok (Node i cs)" and el: "elems_ok inh (Node i cs)"
    and co: "consistent (shown (Node i cs)) (Node i cs)" by (simp_all add: tree_ok_def)
  have sh: "shown (Node i cs)" using e by (simp add: shown_Node)
  from el e have ne: "cs \<noteq> []" and np: "\<not> isPending i" by auto
  show ?thesis
  proof (cases "isExpanded i")
    case True
    let ?i2 = "i \<lparr> isExpanded := False, el := Some (e \<lparr> line := ExpandedT k sz CaretRight \<rparr>) \<rparr>"
    from t True n e ne have h: "hideNodeChildren (Node ?i2 cs) = Inr n'"
      by (auto simp: toggleNode_def setCaretIconRight_def setCaretIcon_def split: sum.splits)
    from co sh True have cc: "\<forall>c \<in> set cs. consistent True c" by simp
    from hide_consistent(1)[OF _ h, of True] cc
    have n': "n' = Node ?i2 (map (setHiddenAll True) cs)" by simp
    have 3: "shown n'" unfolding n' using e by (simp add: shown_Node)
    have 4: "consistent True n'" unfolding n' using e
      by (auto simp: shown_Node setHiddenAll_True_consistent)
    from 3 4 sh n show ?thesis by simp
  next
    case False
    let ?i2 = "i \<lparr> isExpanded := True, el := Some (e \<lparr> line := ExpandedT k sz CaretDown \<rparr>) \<rparr>"
    from ne obtain c1 cs1 where cs: "cs = c1 # cs1" by (cases cs) auto
    show ?thesis
    proof (cases "isPending (info c1)")
      case True
      from t False n e cs True obtain node1 node2 s2 node3 where
        x: "(if key (info c1) = Some ''$ref'' then extendNodeElementByRef inh (Node ?i2 cs)
             else Inr (Node ?i2 cs)) = Inr node1"
        and m: "traverse materialize node1 ([], d) = Inr (node2, s2)"
        and ex: "expand node2 = Inr node3"
        and s: "showNodeChildren node3 = Inr n'"
        by (auto simp: toggleNode_def setCaretIconDown_def setCaretIcon_def
            split: sum.splits if_splits prod.splits)
      have ty2: "types_ok (Node ?i2 cs)" using ty by simp
      have n1: "types_ok node1"
      proof (cases "key (info c1) = Some ''$ref''")
        case True
        with x have "extendNodeElementByRef inh (Node ?i2 cs) = Inr node1" by simp
        from types_ok_extend[OF ty2 _ this] ne show ?thesis by simp
      next
        case False
        with x ty2 show ?thesis by auto
      qed
      from materialize_expand_fields[OF m ex n1]
      have o: "opened node3" "types_ok node3" by auto
      from show_opened[OF o(1)] s have n': "n' = node3" by simp
      from opened_tree_ok[OF o(1,2), of inh] have 1: "consistent True node3" by auto
      have 2: "shown node3" using o(1) by (cases node3) (auto simp: shown_Node)
      from 1 2 sh n show ?thesis unfolding n' by simp
    next
      case np1: False
      from t False n e cs np1 have s: "showNodeChildren (Node ?i2 cs) = Inr n'"
        by (auto simp: toggleNode_def setCaretIconDown_def setCaretIcon_def split: sum.splits)
      from co sh False have cc: "\<forall>c \<in> set cs. consistent False c" by simp
      from show_consistent(1)[OF _ s] cc have a: "info n' = ?i2"
        "\<forall>c' \<in> set (children n'). consistent True c'"
        by auto
      obtain i3 cs3 where n': "n' = Node i3 cs3" by (cases n')
      have 3: "shown n'" using a(1) n' e by (simp add: shown_Node)
      have 4: "consistent True n'" using a n' e by (auto simp: shown_Node)
      from 3 4 sh n show ?thesis by simp
    qed
  qed
qed

lemma map_update_same:
  "j < length cs \<Longrightarrow> f c' = f (cs ! j) \<Longrightarrow> map f (cs[j := c']) = map f cs"
  by (simp add: map_update list_update_same_conv)

lemma labelOk_update:
  assumes "labelOk inh (Node i cs)" "j < length cs" "refPending c' = refPending (cs ! j)"
    "value' (info c') = value' (info (cs ! j))"
  shows "labelOk inh (Node i (cs[j := c']))"
proof -
  have "map refPending (cs[j := c']) = map refPending cs"
    using assms(2,3) by (rule map_update_same)
  then have "set (map refPending (cs[j := c'])) = set (map refPending cs)" by simp
  then have rp: "list_ex refPending (cs[j := c']) = list_ex refPending cs"
    unfolding list_ex_iff by (metis (no_types, lifting) image_iff list.set_map)
  have va: "map (\<lambda>c. value' (info c)) (cs[j := c']) = map (\<lambda>c. value' (info c)) cs"
    using assms(2,4) by (rule map_update_same)
  have rc: "refCount inh (Node i (cs[j := c'])) = refCount inh (Node i cs)"
    using va by (intro refCount_cong) simp_all
  have "labelOk inh (Node i (cs[j := c'])) = labelOk inh (Node i cs)"
    using rp rc by (intro labelOk_cong) (simp_all add: sizeLabel_def)
  with assms(1) show ?thesis by simp
qed

lemma clickAt_elems_ok:
  "types_ok n \<Longrightarrow> elems_ok inh n \<Longrightarrow> clickAt inh p n d = Inr (n', d') \<Longrightarrow>
     types_ok n' \<and> elems_ok inh n'
     \<and> isPending (info n') = isPending (info n) \<and> key (info n') = key (info n)
     \<and> value' (info n') = value' (info n) \<and> parsedData (info n') = parsedData (info n)"
proof (induction p arbitrary: n n')
  case Nil
  from Nil.prems(3) have "click inh n d = Inr (n', d')" by simp
  from click_elems_ok[OF Nil.prems(1,2) this] show ?case .
next
  case (Cons j p)
  obtain i cs where n: "n = Node i cs" by (cases n)
  from Cons.prems(3) n obtain c' where j: "j < length cs"
    and c: "clickAt inh p (cs ! j) d = Inr (c', d')" and n': "n' = Node i (cs[j := c'])"
    by (auto split: if_splits sum.splits)
  have m: "cs ! j \<in> set cs" using j by simp
  from Cons.prems(1,2) n m have "types_ok (cs ! j)" "elems_ok inh (cs ! j)" by auto
  from Cons.IH[OF this c] have ih: "types_ok c'" "elems_ok inh c'"
    "isPending (info c') = isPending (info (cs ! j))" "key (info c') = key (info (cs ! j))"
    "value' (info c') = value' (info (cs ! j))" by auto
  have sub: "set (cs[j := c']) \<subseteq> insert c' (set cs)" by (rule set_update_subset_insert)
  have ne: "cs[j := c'] = [] \<longleftrightarrow> cs = []" by simp
  have 1: "types_ok n'" using Cons.prems(1) n ih(1) sub ne unfolding n' by auto
  have rp: "refPending c' = refPending (cs ! j)" using ih(3,4) by (simp add: refPending_def)
  have lab: "labelOk inh (Node i (cs[j := c']))"
    using labelOk_update[OF _ j rp ih(5)] Cons.prems(2) n by simp
  have 2: "elems_ok inh n'" using Cons.prems(2) n ih(2) sub ne lab unfolding n' by auto
  from 1 2 n n' show ?case by simp
qed

lemma clickAt_consistent:
  "types_ok n \<Longrightarrow> elems_ok inh n \<Longrightarrow> consistent v n \<Longrightarrow> clickAt inh p n d = Inr (n', d') \<Longrightarrow>
     consistent v n'"
proof (induction p arbitrary: n n' v)
  case Nil
  have v: "v = shown n" using Nil.prems(3) by (cases n) auto
  have ok: "tree_ok inh n" using Nil.prems(1-3) v by (simp add: tree_ok_def)
  from Nil.prems(4) have "click inh n d = Inr (n', d')" by simp
  from click_consistent[OF ok this] v show ?case by simp
next
  case (Cons j p)
  obtain i cs where n: "n = Node i cs" by (cases n)
  from Cons.prems(4) n obtain c' where j: "j < length cs"
    and c: "clickAt inh p (cs ! j) d = Inr (c', d')" and n': "n' = Node i (cs[j := c'])"
    by (auto split: if_splits sum.splits)
  have m: "cs ! j \<in> set cs" using j by simp
  from Cons.prems(1-3) n m have "types_ok (cs ! j)" "elems_ok inh (cs ! j)"
    "consistent (v \<and> isExpanded i) (cs ! j)" by auto
  from Cons.IH[OF this c] have ih: "consistent (v \<and> isExpanded i) c'" .
  have sub: "set (cs[j := c']) \<subseteq> insert c' (set cs)" by (rule set_update_subset_insert)
  show ?case using Cons.prems(3) n ih sub unfolding n'
    by (auto simp: shown_Node)
qed

lemma patched_refl: "patched cs i i"
  by (auto simp: patched_def split: option.splits)

lemma patched_trans:
  "patched as i i1 \<Longrightarrow> patched bs i1 i2 \<Longrightarrow> set as \<union> set bs \<subseteq> set cs \<Longrightarrow> patched cs i i2"
  by (fastforce simp: patched_def split: option.splits)

lemma hasCaret_patchSize [simp]: "hasCaret (line (patchSize e n)) = hasCaret (line e)"
  by (cases "line e") (auto simp: patchSize_def)

lemma hidden_patchSize [simp]: "hidden (patchSize e n) = hidden e"
  by (cases "line e") (auto simp: patchSize_def)

lemma renderCallback_effect:
  assumes "renderCallback inh par n s = Inr (p1, i1, s1)" "el (info n) = None"
  shows "(case par of None \<Rightarrow> p1 = None
          | Some p \<Rightarrow> (\<exists>i'. p1 = Some i' \<and> patched [n] (info p) i'))"
    and "key i1 = key (info n)" "type' i1 = type' (info n)" "isPending i1 = isPending (info n)"
      "isExpanded i1 = isExpanded (info n)" "hasParent i1 = hasParent (info n)"
    and "isPending (info n) \<Longrightarrow> el i1 = None"
    and "\<not> isPending (info n) \<Longrightarrow>
           \<exists>e. el i1 = Some e \<and> hidden e = hasParent (info n)
              \<and> (hasCaret (line e) \<longleftrightarrow> children n \<noteq> [])
              \<and> (children n \<noteq> [] \<longrightarrow> (\<exists>k ic. line e = ExpandedT k (sizeText n) ic))"
    and "value' i1 = value' (info n)" "parsedData i1 = parsedData (info n)"
proof -
  show "(case par of None \<Rightarrow> p1 = None
          | Some p \<Rightarrow> (\<exists>i'. p1 = Some i' \<and> patched [n] (info p) i'))"
    using assms(1)
    by (auto simp: renderCallback_def patched_refl patched_def refPending_def Let_def
        split: if_splits option.splits sum.splits prod.splits)
  show "key i1 = key (info n)" "type' i1 = type' (info n)" "isPending i1 = isPending (info n)"
      "isExpanded i1 = isExpanded (info n)" "hasParent i1 = hasParent (info n)"
      "value' i1 = value' (info n)" "parsedData i1 = parsedData (info n)"
    using assms(1)
    by (auto simp: renderCallback_def createNodeElement_def Let_def
        split: if_splits option.splits sum.splits prod.splits)
  show "isPending (info n) \<Longrightarrow> el i1 = None"
    using assms
    by (auto simp: renderCallback_def Let_def split: if_splits option.splits sum.splits)
  show "\<not> isPending (info n) \<Longrightarrow>
           \<exists>e. el i1 = Some e \<and> hidden e = hasParent (info n)
              \<and> (hasCaret (line e) \<longleftrightarrow> children n \<noteq> [])
              \<and> (children n \<noteq> [] \<longrightarrow> (\<exists>k ic. line e = ExpandedT k (sizeText n) ic))"
    using assms(1)
    by (auto simp: renderCallback_def createNodeElement_def sizeText_def Let_def
        split: if_splits prod.splits)
qed

lemma renderTraverse_parent:
  assumes "renderTraverse inh (Some p) c s = Inr (p', c', s')" "refPending c"
  shows "\<exists>pe k. el (info p) = Some pe \<and> refCount inh p = Some k
           \<and> p' = Some ((info p) \<lparr> el := Some (patchSize pe k) \<rparr>)"
proof -
  obtain ic gcs where c: "c = Node ic gcs" by (cases c)
  from assms(1) c obtain i1 s1 where
    cb: "renderCallback inh (Some p) (Node ic gcs) s = Inr (p', i1, s1)"
    by (auto split: sum.splits if_splits)
  from cb assms(2) c show ?thesis
    by (auto simp: renderCallback_def refPending_def refCount_def
        split: sum.splits option.splits if_splits)
qed

lemma renderForEach_single_ref:
  assumes "renderForEach inh i1 [] [c] s1 = Inr (i2, cs2, s')" "refPending c"
  shows "\<exists>pe k. el i1 = Some pe \<and> refCount inh (Node i1 [c]) = Some k
           \<and> el i2 = Some (patchSize pe k)"
proof -
  from assms(1) obtain p' c' s2 where
    t: "renderTraverse inh (Some (Node i1 [c])) c s1 = Inr (p', c', s2)"
    and r: "i2 = (case p' of Some x \<Rightarrow> x | None \<Rightarrow> i1)"
    by (auto split: sum.splits)
  from renderTraverse_parent[OF t assms(2)] r show ?thesis by auto
qed

lemma show_nat_1: "show_nat (Suc 0) = ''1''"
  by code_simp

lemma single_ref_label:
  assumes "type' i = Some ''array'' \<or> type' i = Some ''object''"
  shows "labelNumeral (replaceFirst1 (sizeText (Node i [c])) (show_nat k)) = Some k"
  using assms labelNumeral_brackets[of "CHR ''[''" k "CHR '']''"]
    labelNumeral_brackets[of "CHR ''{''" k "CHR ''}''"]
  by (auto simp: sizeText_def getSizeString_def Let_def show_nat_1)

lemma Qren_from_patched:
  assumes cb: "key i1 = key i" "type' i1 = type' i" "isPending i1 = isPending i"
      "isExpanded i1 = isExpanded i" "hasParent i1 = hasParent i"
    and pe: "isPending i \<Longrightarrow> el i1 = None"
    and ne: "\<not> isPending i \<Longrightarrow>
           \<exists>e. el i1 = Some e \<and> hidden e = hasParent i
              \<and> (hasCaret (line e) \<longleftrightarrow> cs \<noteq> [])
              \<and> (cs \<noteq> [] \<longrightarrow> (\<exists>k ic. line e = ExpandedT k (sizeText (Node i cs)) ic))"
    and pa: "patched cs i1 i2"
    and va: "value' i1 = value' i" "parsedData i1 = parsedData i"
    and sr: "\<And>c. cs = [c] \<Longrightarrow> refPending c \<Longrightarrow> \<not> isPending i \<Longrightarrow>
           \<exists>k. refCount inh (Node i cs) = Some k
              \<and> sizeLabel (Node i2 []) = Some (replaceFirst1 (sizeText (Node i cs)) (show_nat k))"
  shows "Qren inh (Node i cs) i2"
proof (cases "isPending i")
  case True
  with pe pa cb va show ?thesis by (auto simp: Qren_def patched_def)
next
  case False
  from ne[OF False] obtain e where e: "el i1 = Some e" "hidden e = hasParent i"
    "hasCaret (line e) \<longleftrightarrow> cs \<noteq> []"
    "cs \<noteq> [] \<longrightarrow> (\<exists>k ic. line e = ExpandedT k (sizeText (Node i cs)) ic)" by blast
  from pa e(1) obtain e' where e': "el i2 = Some e'" "hidden e' = hidden e"
    "hasCaret (line e') = hasCaret (line e)" "line e' = line e \<or> (\<exists>c \<in> set cs. refPending c)"
    by (auto simp: patched_def)
  have 1: "sizeLabel (Node i2 []) = Some (sizeText (Node i cs)) \<or> sizeLabel (Node i2 []) = None
          \<or> (\<exists>c \<in> set cs. refPending c)"
  proof (cases "cs = []")
    case True
    with e(3) e'(3) have "\<not> hasCaret (line e')" by simp
    then have "sizeLabel (Node i2 []) = None" using e'(1)
      by (cases "line e'") (auto simp: sizeLabel_def)
    then show ?thesis by simp
  next
    case False
    with e(4) obtain k ic where "line e = ExpandedT k (sizeText (Node i cs)) ic" by blast
    with e'(4) e'(1) show ?thesis by (auto simp: sizeLabel_def)
  qed
  have 2: "\<forall>c. children (Node i cs) = [c] \<and> refPending c \<longrightarrow>
             (\<exists>k. refCount inh (Node i cs) = Some k
                 \<and> sizeLabel (Node i2 []) = Some (replaceFirst1 (sizeText (Node i cs)) (show_nat k)))"
    using sr False by simp
  have 3: "key i2 = key i" "type' i2 = type' i" "isPending i2 = isPending i"
    "isExpanded i2 = isExpanded i" "hasParent i2 = hasParent i" "value' i2 = value' i"
    "parsedData i2 = parsedData i"
    using pa cb va by (simp_all add: patched_def)
  have 4: "\<exists>e. el i2 = Some e \<and> hidden e = hasParent i \<and> (hasCaret (line e) \<longleftrightarrow> cs \<noteq> [])"
    using e e' by simp
  show ?thesis unfolding Qren_def using False 1 2 3 4 by simp
qed

lemma render_rel:
  "renderTraverse inh par n s = Inr (p', n', s') \<Longrightarrow> noel n \<Longrightarrow>
     tree_rel (Qren inh) n n'
     \<and> (case par of None \<Rightarrow> p' = None
         | Some p \<Rightarrow> (\<exists>i'. p' = Some i' \<and> patched [n] (info p) i'))"
  "renderForEach inh i done cs s = Inr (i', out, s') \<Longrightarrow> (\<forall>c \<in> set cs. noel c) \<Longrightarrow>
     (\<exists>new. out = done @ new \<and> list_all2 (tree_rel (Qren inh)) cs new) \<and> patched cs i i'"
proof (induction inh par n s and inh i "done" cs s arbitrary: p' n' s' and i' out s'
    rule: renderTraverse_renderForEach.induct)
  case (1 inh parent i cs s)
  from 1(2) obtain p1 i1 s1 where cb: "renderCallback inh parent (Node i cs) s = Inr (p1, i1, s1)"
    by (auto split: sum.splits)
  from 1(3) have eln: "el (info (Node i cs)) = None" and chn: "\<forall>c \<in> set cs. noel c" by auto
  note eff = renderCallback_effect[OF cb eln]
  have par: "(case parent of None \<Rightarrow> p1 = None
          | Some p \<Rightarrow> (\<exists>i'. p1 = Some i' \<and> patched [Node i cs] (info p) i'))"
    using eff(1) .
  have e8: "\<not> isPending i \<Longrightarrow>
           \<exists>e. el i1 = Some e \<and> hidden e = hasParent i
              \<and> (hasCaret (line e) \<longleftrightarrow> cs \<noteq> [])
              \<and> (cs \<noteq> [] \<longrightarrow> (\<exists>k ic. line e = ExpandedT k (sizeText (Node i cs)) ic))"
    using eff(8) by simp
  show ?case
  proof (cases "length cs > 0")
    case True
    with 1(2) cb obtain i2 cs2 where f: "renderForEach inh i1 [] cs s1 = Inr (i2, cs2, s')"
      and r: "p' = p1" "n' = Node i2 cs2"
      by (auto split: sum.splits)
    from 1(1)[OF cb refl refl True f chn] have l: "list_all2 (tree_rel (Qren inh)) cs cs2"
      and pa: "patched cs i1 i2" by auto
    have sr: "\<exists>k. refCount inh (Node i cs) = Some k
              \<and> sizeLabel (Node i2 []) = Some (replaceFirst1 (sizeText (Node i cs)) (show_nat k))"
      if c: "cs = [c]" and rp: "refPending c" and np: "\<not> isPending i" for c
    proof -
      from renderForEach_single_ref[OF f[unfolded c] rp] obtain pe k where
        k: "el i1 = Some pe" "refCount inh (Node i1 [c]) = Some k" "el i2 = Some (patchSize pe k)"
        by blast
      from e8[OF np] k(1) c obtain kk ic where "line pe = ExpandedT kk (sizeText (Node i cs)) ic"
        by auto
      with k(3) have a: "sizeLabel (Node i2 []) = Some (replaceFirst1 (sizeText (Node i cs)) (show_nat k))"
        by (simp add: sizeLabel_def patchSize_def)
      have "refCount inh (Node i1 [c]) = refCount inh (Node i cs)"
        using eff(10) c by (intro refCount_cong) simp_all
      with k(2) have b: "refCount inh (Node i cs) = Some k" by simp
      from a b show ?thesis by blast
    qed
    have "Qren inh (Node i cs) i2"
      by (rule Qren_from_patched[where ?i1.0 = i1, OF _ _ _ _ _ _ e8 pa _ _ sr])
        (use eff(2-7,9,10) in simp_all)
    with l par show ?thesis unfolding r by simp
  next
    case False
    with 1(2) cb have r: "p' = p1" "n' = Node i1 cs" "cs = []" by auto
    have "Qren inh (Node i cs) i1"
      by (rule Qren_from_patched[where ?i1.0 = i1, OF _ _ _ _ _ _ e8 patched_refl])
        (use eff(2-7,9,10) r(3) in simp_all)
    with par r(3) show ?thesis unfolding r(1,2) by simp
  qed
next
  case (2 inh i "done" s)
  then show ?case by (simp add: patched_refl)
next
  case (3 inh i "done" c cs s)
  from 3(3) obtain p1 c1 s1 where t: "renderTraverse inh (Some (Node i (done @ c # cs))) c s = Inr (p1, c1, s1)"
    by (auto split: sum.splits)
  from 3(4) have cn: "noel c" and rn: "\<forall>x \<in> set cs. noel x" by auto
  from 3(1)[OF t cn] obtain i1 where c1: "tree_rel (Qren inh) c c1" and p1: "p1 = Some i1"
    and pa1: "patched [c] i i1" by auto
  from 3(3) t p1 have f: "renderForEach inh i1 (done @ [c1]) cs s1 = Inr (i', out, s')" by simp
  from 3(2)[OF t refl refl, of i' out s'] f p1 rn obtain new where
    o: "out = (done @ [c1]) @ new" and l: "list_all2 (tree_rel (Qren inh)) cs new"
    and pa2: "patched cs i1 i'" by auto
  have "patched (c # cs) i i'" by (rule patched_trans[OF pa1 pa2]) auto
  moreover have "out = done @ (c1 # new)" using o by simp
  moreover have "list_all2 (tree_rel (Qren inh)) (c # cs) (c1 # new)" using c1 l by simp
  ultimately show ?case by blast
qed

lemma fresh_noel: "fresh n \<Longrightarrow> noel n"
  by (induction n) auto

lemma fresh_createSubnode:
  "children node = [] \<Longrightarrow> el (info node) = None \<Longrightarrow> \<not> isExpanded (info node) \<Longrightarrow>
     fresh (createSubnode data node late)"
proof (induction data node late rule: createSubnode.induct)
  case (1 data node late)
  show ?case
  proof (cases "typeof data = ''object''")
    case True
    have "fresh (createSubnode (snd kv) (newChild node late kv) late)
          \<and> hasParent (info (newChild node late kv))"
      if "kv \<in> set (forin data)" for kv
      using 1(1)[OF True refl that refl] by (simp add: newChild_def createNode_def Let_def)
    then show ?thesis using True 1(2-4)
      by (subst createSubnode_map) (cases node, auto)
  next
    case False
    then show ?thesis using 1(2-4) by (subst createSubnode_map) (cases node, auto)
  qed
qed

lemma create_fresh:
  assumes "create parse doc = Inr t"
  shows "fresh t" "types_ok t" "\<not> hasParent (info t)" "\<not> isPending (info t)"
proof -
  from create_ok[OF assms] obtain parsed r0 where
    r: "t = createSubnode parsed r0 False" and r0: "children r0 = []" "el (info r0) = None"
      "\<not> isExpanded (info r0)" "type' (info r0) = Some (getDataType parsed)"
      "\<not> hasParent (info r0)" "\<not> isPending (info r0)"
    by auto
  show "fresh t" unfolding r by (rule fresh_createSubnode[OF r0(1-3)])
  show "types_ok t" unfolding r by (rule types_ok_createSubnode[OF r0(1,4)])
  show "\<not> hasParent (info t)" "\<not> isPending (info t)" unfolding r using r0 by simp_all
qed

lemma Qren_type: "Qren inh m i \<Longrightarrow> type' i = type' (info m)"
  by (simp add: Qren_def)

lemma sizeLabel_info: "sizeLabel (Node i cs) = sizeLabel (Node i [])"
  by (simp add: sizeLabel_def)

lemma rendered_elems_ok:
  "tree_rel (Qren inh) n n' \<Longrightarrow> fresh n \<Longrightarrow> types_ok n \<Longrightarrow>
     elems_ok inh n' \<and> \<not> isExpanded (info n') \<and> (\<forall>c \<in> set (children n'). consistent False c)"
proof (induction n arbitrary: n')
  case (Node i cs)
  obtain i' cs' where n': "n' = Node i' cs'" by (cases n')
  from Node.prems(1) n' have q: "Qren inh (Node i cs) i'"
    and l: "list_all2 (tree_rel (Qren inh)) cs cs'" by auto
  have len: "length cs' = length cs" using l by (auto dest: list_all2_lengthD)
  have ch: "elems_ok inh c \<and> consistent False c" if "c \<in> set cs'" for c
  proof -
    from that obtain k where k: "k < length cs'" "c = cs' ! k" by (auto simp: in_set_conv_nth)
    with l len have t: "tree_rel (Qren inh) (cs ! k) c" by (auto dest: list_all2_nthD)
    have m: "cs ! k \<in> set cs" using k len by simp
    with Node.prems(2,3) have f: "fresh (cs ! k)" "types_ok (cs ! k)" "hasParent (info (cs ! k))"
      by auto
    from Node.IH[OF m t f(1,2)] have ih: "elems_ok inh c" "\<not> isExpanded (info c)"
      "\<forall>g \<in> set (children c). consistent False g" by auto
    from tree_rel_top[OF t] f(3) have "\<not> shown c"
      by (cases c) (auto simp: Qren_def shown_Node split: if_splits)
    with ih show ?thesis by (cases c) auto
  qed
  from len have e: "cs' = [] \<longleftrightarrow> cs = []" by auto
  have k: "isPending i' \<longleftrightarrow> el i' = None" using q by (auto simp: Qren_def split: if_splits)
  have c: "\<forall>e. el i' = Some e \<longrightarrow> (hasCaret (line e) \<longleftrightarrow> cs' \<noteq> [])"
    using q e by (auto simp: Qren_def split: if_splits)
  have rp: "list_ex refPending cs' = list_ex refPending cs"
    using tree_rel_refPending[OF l] by (simp add: list_ex_iff Qren_def)
  have va: "map (\<lambda>c. value' (info c)) cs' = map (\<lambda>c. value' (info c)) cs"
    by (rule tree_rel_values[OF l]) (simp add: Qren_def)
  have rc: "refCount inh (Node i' cs') = refCount inh (Node i cs)"
    using q va by (intro refCount_cong) (simp_all add: Qren_def)
  have lab: "labelOk inh (Node i' cs')"
  proof (cases "sizeLabel (Node i' cs')")
    case None
    then show ?thesis by (simp add: labelOk_def)
  next
    case (Some sz)
    then obtain e where e1: "el i' = Some e" "hasCaret (line e)"
      by (auto simp: sizeLabel_def split: option.splits template.splits)
    with c e have ne: "cs \<noteq> []" by auto
    with Node.prems(3) have ty: "type' i = Some ''array'' \<or> type' i = Some ''object''" by simp
    from q e1 have np: "\<not> isPending i" by (auto simp: Qren_def split: if_splits)
    have sl: "sizeLabel (Node i' []) = Some sz" using Some sizeLabel_info[of i' cs'] by simp
    show ?thesis
    proof (cases "list_ex refPending cs")
      case False
      then have "\<not> (\<exists>c \<in> set cs. refPending c)" by (simp add: list_ex_iff)
      with q np sl have "sz = sizeText (Node i cs)" by (auto simp: Qren_def)
      with labelNumeral_sizeText[of "Node i cs"] ty len Some False rp show ?thesis
        by (simp add: labelOk_def)
    next
      case True
      show ?thesis
      proof (cases "length cs = 1")
        case False
        with True rp len Some show ?thesis by (simp add: labelOk_def)
      next
        case l1: True
        then obtain c0 where c0: "cs = [c0]" by (cases cs) auto
        with True have r0: "refPending c0" by simp
        from q np c0 r0 obtain k where k: "refCount inh (Node i cs) = Some k"
          "sizeLabel (Node i' []) = Some (replaceFirst1 (sizeText (Node i cs)) (show_nat k))"
          by (auto simp: Qren_def)
        with sl have "sz = replaceFirst1 (sizeText (Node i [c0])) (show_nat k)" using c0 by simp
        with single_ref_label[OF ty, of c0 k] have "labelNumeral sz = Some k" by simp
        with k(1) rc True rp Some show ?thesis by (simp add: labelOk_def)
      qed
    qed
  qed
  have x: "\<not> isExpanded i'" using q Node.prems(2) by (simp add: Qren_def)
  from k c lab ch x show ?case unfolding n' by simp
qed

lemma render_tree_ok:
  assumes "create parse doc = Inr t" "render inh t d = Inr (t', d')"
  shows "tree_ok inh t'"
proof -
  note f = create_fresh[OF assms(1)]
  from assms(2) obtain p s' where r: "renderTraverse inh None t ([], d) = Inr (p, t', s')"
    by (auto simp: render_def split: sum.splits prod.splits)
  from render_rel(1)[OF r fresh_noel[OF f(1)]] have rel: "tree_rel (Qren inh) t t'" by simp
  from rendered_elems_ok[OF rel f(1,2)] have e: "elems_ok inh t'" "\<not> isExpanded (info t')"
    "\<forall>c \<in> set (children t'). consistent False c" by auto
  have ty: "types_ok t'" using tree_rel_types_ok[OF rel Qren_type f(2)] .
  have "consistent (shown t') t'" using e(2,3) by (cases t') auto
  with ty e(1) show ?thesis by (simp add: tree_ok_def)
qed

lemma reachable_by_clicks_tree_ok: "reachable_by_clicks inh s \<Longrightarrow> tree_ok inh (fst s)"
proof (induction rule: reachable_by_clicks.induct)
  case (rendered parse doc t d t' d')
  then show ?case using render_tree_ok by simp
next
  case (clicked t d p t' d')
  from clicked.IH have ok: "types_ok t" "elems_ok inh t" "consistent (shown t) t"
    by (simp_all add: tree_ok_def)
  from clickAt_elems_ok[OF ok(1,2) clicked.hyps(2)] have r: "types_ok t'" "elems_ok inh t'" by auto
  from clickAt_consistent[OF ok clicked.hyps(2)] have c: "consistent (shown t) t'" .
  then have "shown t' = shown t" by (cases t') auto
  with r c show ?case by (simp add: tree_ok_def)
qed

lemma reachable_elems_ok: "reachable inh s \<Longrightarrow> types_ok (fst s) \<and> elems_ok inh (fst s)"
proof (induction rule: reachable.induct)
  case (rendered parse doc t d t' d')
  from render_tree_ok[OF rendered.hyps] show ?case by (simp add: tree_ok_def)
next
  case (clicked t d p t' d')
  from clicked.IH have ok: "types_ok t" "elems_ok inh t" by simp_all
  from clickAt_elems_ok[OF ok clicked.hyps(2)] show ?case by simp
next
  case (expanded t d p n n')
  from expanded.IH have ok: "types_ok t" "elems_ok inh t" by simp_all
  have r: "tree_rel Qcos t (replace_at t p n')"
    using replace_at_cosmetic[OF expanded.hyps(2) expand_cosmetic[OF expanded.hyps(3)]] .
  from tree_rel_types_ok[OF r Qcos_type ok(1)] cosmetic_elems_ok[OF r ok(2)] show ?case by simp
next
  case (collapsed t d p n n')
  from collapsed.IH have ok: "types_ok t" "elems_ok inh t" by simp_all
  have r: "tree_rel Qcos t (replace_at t p n')"
    using replace_at_cosmetic[OF collapsed.hyps(2) collapse_cosmetic[OF collapsed.hyps(3)]] .
  from tree_rel_types_ok[OF r Qcos_type ok(1)] cosmetic_elems_ok[OF r ok(2)] show ?case by simp
qed

lemma reachable_by_clicks_reachable: "reachable_by_clicks inh s \<Longrightarrow> reachable inh s"
  by (induction rule: reachable_by_clicks.induct) (auto intro: reachable.intros)

lemma elems_ok_nodes: "elems_ok inh t \<Longrightarrow> n \<in> set (nodes t) \<Longrightarrow> elems_ok inh n"
proof (induction t rule: nodes.induct)
  case (1 i cs)
  then show ?case by auto
qed

lemma renderJSON_reachable:
  "renderJSON parse inh doc d = Inr s \<Longrightarrow> reachable_by_clicks inh s"
  by (cases s) (auto simp: renderJSON_def split: sum.splits intro: reachable_by_clicks.rendered)

lemma andThen_reachable:
  "reachable_by_clicks inh s \<Longrightarrow> andThen (Inr s) (clickAt inh p) = Inr s' \<Longrightarrow>
     reachable_by_clicks inh s'"
  by (cases s; cases s') (auto simp: andThen_def intro: reachable_by_clicks.clicked)

lemma reachable_andThen:
  assumes "andThen r (clickAt inh p) = Inr s'" and "\<And>s. r = Inr s \<Longrightarrow> reachable_by_clicks inh s"
  shows "reachable_by_clicks inh s'"
proof -
  from assms(1) obtain s where s: "r = Inr s" by (cases r) (auto simp: andThen_def)
  with assms(1) have "andThen (Inr s) (clickAt inh p) = Inr s'" by simp
  from andThen_reachable[OF assms(2)[OF s] this] show ?thesis .
qed

text \<open>
  Claim C3, as stated, fails. After the render of
  \<open>{"a": {"x": {"$ref": "#/defs/Y"}}, "defs": {"Y": {"p": 1, "q": 2}}}\<close> the size label of
  \<open>x\<close> reads \<open>{2}\<close>, the count of the resolved target, while \<open>x\<close> has one child, the
  placeholder.
\<close>

theorem size_label_counterexample:
  "\<forall>inherited.
     (case nodeOf (renderJSON noParse inherited doc_deep_ref dom0) [0, 0] of
        Some x \<Rightarrow> map_option labelNumeral (sizeLabel x) = Some (Some 2) \<and> length (children x) = 1
      | None \<Rightarrow> False)"
proof
  fix inherited
  show "(case nodeOf (renderJSON noParse inherited doc_deep_ref dom0) [0, 0] of
        Some x \<Rightarrow> map_option labelNumeral (sizeLabel x) = Some (Some 2) \<and> length (children x) = 1
      | None \<Rightarrow> False)"
    by code_simp
qed

text \<open>
  The count is written with \<open>replace("1", count)\<close> on the text of the label. Where the
  placeholder has siblings the label shows neither number: in a reference node with ten
  children and a target of three elements the label \<open>{10}\<close> becomes \<open>{30}\<close>.
\<close>

lemma size_label_siblings:
  "(case nodeOf (renderJSON noParse inh doc_siblings dom0) [0, 0] of
      Some x \<Rightarrow> sizeLabel x = Some ''{30}'' \<and> length (children x) = 10
                \<and> refCount inh x = Some 3
    | None \<Rightarrow> False)"
  by code_simp

text \<open>
  Claim C3, amended. Take a state reached from the initial render by clicks on carets and
  by calls of \<open>expand\<close> and \<open>collapse\<close> that return, and in it a node that has children and
  an element (a container without children is shown as a leaf line, without a size label).
  The node has a size label. If no child of the node is a pending placeholder keyed \<open>$ref\<close>,
  the numeral of the label is the number of children of the node. If the only child of the
  node is such a placeholder (a reference node that was never expanded), the numeral is the
  count of the elements of the resolved target, as the render has written it, and not the
  number of children, which is 1. Nothing is said of a reference node whose placeholder
  has siblings.
\<close>

theorem size_label_reachable:
  assumes "reachable inh (t, d)" and "n \<in> set (nodes t)"
    and "children n \<noteq> []" and "el (info n) \<noteq> None"
  shows "\<exists>sz. sizeLabel n = Some sz
    \<and> ((\<forall>c \<in> set (children n). \<not> (isPending (info c) \<and> key (info c) = Some ''$ref''))
          \<longrightarrow> labelNumeral sz = Some (length (children n)))
    \<and> (\<forall>c. children n = [c] \<and> isPending (info c) \<and> key (info c) = Some ''$ref''
          \<longrightarrow> (\<exists>target k. resolveref inh n = Inr target \<and> countElements target = Inr k
                  \<and> labelNumeral sz = Some k))"
proof -
  from reachable_elems_ok[OF assms(1)] have "elems_ok inh t" by simp
  from elems_ok_nodes[OF this assms(2)] have e: "elems_ok inh n" .
  obtain i cs where n: "n = Node i cs" by (cases n)
  from e n have c: "\<forall>e. el i = Some e \<longrightarrow> (hasCaret (line e) \<longleftrightarrow> cs \<noteq> [])"
    and l: "labelOk inh (Node i cs)" by auto
  from assms(4) n obtain e where e: "el i = Some e" by auto
  with c assms(3) n have "hasCaret (line e)" by simp
  with e n obtain sz where sz: "sizeLabel n = Some sz"
    by (cases "line e") (auto simp: sizeLabel_def)
  have 1: "labelNumeral sz = Some (length (children n))"
    if "\<forall>c \<in> set (children n). \<not> (isPending (info c) \<and> key (info c) = Some ''$ref'')"
  proof -
    from that have "\<not> list_ex refPending (children n)" by (simp add: list_ex_iff refPending_def)
    with l sz n show ?thesis by (simp add: labelOk_def)
  qed
  have 2: "\<exists>target k. resolveref inh n = Inr target \<and> countElements target = Inr k
                  \<and> labelNumeral sz = Some k"
    if "children n = [c] \<and> isPending (info c) \<and> key (info c) = Some ''$ref''" for c
  proof -
    from that have "list_ex refPending (children n)" "length (children n) = 1"
      by (simp_all add: refPending_def)
    with l sz n obtain k where k: "refCount inh n = Some k" "labelNumeral sz = Some k"
      by (auto simp: labelOk_def)
    from k(1) obtain target where "resolveref inh n = Inr target" "countElements target = Inr k"
      by (auto simp: refCount_def split: sum.splits)
    with k(2) show ?thesis by blast
  qed
  from sz 1 2 show ?thesis by blast
qed

lemma doc_deep_ref_rendered:
  "(case renderJSON noParse inh doc_deep_ref dom0 of
      Inr (t, d) \<Rightarrow>
        (case node_at t [0, 0] of
           Some x \<Rightarrow>
             (case children x of
                [c] \<Rightarrow> isPending (info c) \<and> key (info c) = Some ''$ref'' \<and> el (info x) \<noteq> None
              | _ \<Rightarrow> False)
         | None \<Rightarrow> False)
    | Inl e \<Rightarrow> False)"
  by code_simp

lemma doc_deep_ref_rendered_a:
  "(case renderJSON noParse inh doc_deep_ref dom0 of
      Inr (t, d) \<Rightarrow>
        (case node_at t [0] of
           Some a \<Rightarrow> children a \<noteq> [] \<and> el (info a) \<noteq> None
                     \<and> list_all (\<lambda>c. \<not> (isPending (info c) \<and> key (info c) = Some ''$ref''))
                          (children a)
         | None \<Rightarrow> False)
    | Inl e \<Rightarrow> False)"
  by code_simp

theorem size_label_reachable_witness:
  "\<exists>t d x c sz target k a sa.
     renderJSON noParse noInherited doc_deep_ref dom0 = Inr (t, d) \<and> reachable noInherited (t, d)
     \<and> node_at t [0, 0] = Some x \<and> children x = [c] \<and> isPending (info c)
     \<and> key (info c) = Some ''$ref'' \<and> el (info x) \<noteq> None
     \<and> sizeLabel x = Some sz \<and> resolveref noInherited x = Inr target
     \<and> countElements target = Inr k \<and> labelNumeral sz = Some k
     \<and> node_at t [0] = Some a \<and> children a \<noteq> [] \<and> el (info a) \<noteq> None
     \<and> sizeLabel a = Some sa \<and> labelNumeral sa = Some (length (children a))"
proof -
  let ?r = "renderJSON noParse noInherited doc_deep_ref dom0"
  from doc_deep_ref_rendered[of noInherited] obtain t d where h1: "?r = Inr (t, d)"
    and r1: "(case node_at t [0, 0] of
           Some x \<Rightarrow>
             (case children x of
                [c] \<Rightarrow> isPending (info c) \<and> key (info c) = Some ''$ref'' \<and> el (info x) \<noteq> None
              | _ \<Rightarrow> False)
         | None \<Rightarrow> False)"
    by (cases ?r) auto
  from r1 obtain x where h2: "node_at t [0, 0] = Some x"
    and r2: "(case children x of
                [c] \<Rightarrow> isPending (info c) \<and> key (info c) = Some ''$ref'' \<and> el (info x) \<noteq> None
              | _ \<Rightarrow> False)"
    by (cases "node_at t [0, 0]") auto
  from r2 obtain c where h3: "children x = [c]" "isPending (info c)"
    "key (info c) = Some ''$ref''" "el (info x) \<noteq> None"
    by (cases "children x"; cases "tl (children x)") auto
  from doc_deep_ref_rendered_a[of noInherited] h1 obtain a where h4: "node_at t [0] = Some a"
    "children a \<noteq> []" "el (info a) \<noteq> None"
    "\<forall>c \<in> set (children a). \<not> (isPending (info c) \<and> key (info c) = Some ''$ref'')"
    by (cases "node_at t [0]") (auto simp: list_all_iff)
  have re: "reachable noInherited (t, d)"
    using reachable_by_clicks_reachable[OF renderJSON_reachable[OF h1]] .
  have mx: "x \<in> set (nodes t)" using node_at_in_nodes[OF h2] .
  have ma: "a \<in> set (nodes t)" using node_at_in_nodes[OF h4(1)] .
  from size_label_reachable[OF re mx _ h3(4)] h3 obtain sz target k where
    "sizeLabel x = Some sz" "resolveref noInherited x = Inr target"
    "countElements target = Inr k" "labelNumeral sz = Some k"
    by auto
  moreover from size_label_reachable[OF re ma h4(2,3)] h4(4) obtain sa where
    "sizeLabel a = Some sa" "labelNumeral sa = Some (length (children a))"
    by auto
  ultimately show ?thesis using h1 h2 h3 h4 re by blast
qed

lemma hide_materialized:
  "(\<forall>c \<in> set (children n). consistent v c \<and> (\<forall>m \<in> set (nodes c). el (info m) \<noteq> None)) \<Longrightarrow>
     hideNodeChildren n = Inr (Node (info n) (map (setHiddenAll True) (children n)))"
  "(\<forall>c \<in> set cs. consistent v c \<and> (\<forall>m \<in> set (nodes c). el (info m) \<noteq> None)) \<Longrightarrow>
     hideEach cs = Inr (map (setHiddenAll True) cs)"
proof (induction n and cs arbitrary: v and v rule: hideNodeChildren_hideEach.induct)
  case (1 i cs)
  from 1(1)[of v] 1(2) show ?case by simp
next
  case 2
  then show ?case by simp
next
  case (3 i gs cs)
  from 3(3) obtain e where e: "el i = Some e" by auto
  let ?i2 = "i \<lparr> el := Some (e \<lparr> hidden := True \<rparr>) \<rparr>"
  have s: "setHidden True i = Inr ?i2" using e by (simp add: setHidden_def)
  from 3(3) have g: "\<forall>c \<in> set gs. consistent (v \<and> isExpanded i) c \<and> (\<forall>m \<in> set (nodes c). el (info m) \<noteq> None)"
    and rest: "\<forall>c \<in> set cs. consistent v c \<and> (\<forall>m \<in> set (nodes c). el (info m) \<noteq> None)" by auto
  have h: "(if isExpanded ?i2 then hideNodeChildren (Node ?i2 gs) else Inr (Node ?i2 gs))
             = Inr (setHiddenAll True (Node i gs))"
  proof (cases "isExpanded i")
    case True
    from 3(1)[OF s _ , of "v \<and> isExpanded i"] True g e show ?thesis by simp
  next
    case False
    with g have "\<forall>c \<in> set gs. consistent False c" by simp
    then have "map (setHiddenAll True) gs = gs" by (intro map_idI) (simp add: consistent_False_hidden)
    with False e show ?thesis by simp
  qed
  from 3(2)[OF s h rest] have t: "hideEach cs = Inr (map (setHiddenAll True) cs)" .
  show ?case using s h t by simp
qed

lemma show_restore_one:
  "consistent True c \<Longrightarrow> (\<forall>m \<in> set (nodes c). el (info m) \<noteq> None) \<Longrightarrow>
     showEach (setHiddenAll True c # rest) =
       (case showEach rest of Inl e \<Rightarrow> Inl e | Inr r \<Rightarrow> Inr (c # r))"
proof (induction c arbitrary: rest)
  case (Node i gs)
  from Node.prems obtain e where e: "el i = Some e" "\<not> hidden e" by (auto simp: shown_Node)
  have same: "i \<lparr> el := Some (e \<lparr> hidden := False \<rparr>) \<rparr> = i"
  proof -
    have "e \<lparr> hidden := False \<rparr> = e" using e(2) by (cases e) auto
    with e(1) show ?thesis by (cases i) auto
  qed
  have s: "setHidden False (i \<lparr> el := Some (e \<lparr> hidden := True \<rparr>) \<rparr>) = Inr i"
    using same by (simp add: setHidden_def)
  have k: "(if isExpanded i then showNodeChildren (Node i (map (setHiddenAll True) gs))
            else Inr (Node i (map (setHiddenAll True) gs))) = Inr (Node i gs)"
  proof (cases "isExpanded i")
    case True
    have "showEach (map (setHiddenAll True) xs) = Inr xs" if "set xs \<subseteq> set gs" for xs
      using that
    proof (induction xs)
      case Nil
      then show ?case by simp
    next
      case (Cons x xs)
      then have x: "x \<in> set gs" and xs: "showEach (map (setHiddenAll True) xs) = Inr xs" by auto
      from Node.prems x True have "consistent True x" "\<forall>m \<in> set (nodes x). el (info m) \<noteq> None"
        by auto
      from Node.IH[OF x this, of "map (setHiddenAll True) xs"] xs show ?case by simp
    qed
    from this[of gs] True show ?thesis by simp
  next
    case False
    with Node.prems(1) have "\<forall>c \<in> set gs. consistent False c" by simp
    then have "map (setHiddenAll True) gs = gs" by (intro map_idI) (simp add: consistent_False_hidden)
    with False show ?thesis by simp
  qed
  show ?case using e s k by simp
qed

lemma show_restore:
  "(\<forall>c \<in> set cs. consistent True c \<and> (\<forall>m \<in> set (nodes c). el (info m) \<noteq> None)) \<Longrightarrow>
     showEach (map (setHiddenAll True) cs) = Inr cs"
proof (induction cs)
  case Nil
  then show ?case by simp
next
  case (Cons c cs)
  then have "showEach (map (setHiddenAll True) cs) = Inr cs" by simp
  with show_restore_one[of c "map (setHiddenAll True) cs"] Cons.prems show ?case by simp
qed

lemma nodes_setHiddenAll_hidden: "m \<in> set (nodes (setHiddenAll True c)) \<Longrightarrow> \<not> shown m"
proof (induction c)
  case (Node i cs)
  then show ?case by (auto simp: shown_Node)
qed

lemma nodes_setHiddenAll_flags:
  "map (\<lambda>m. isExpanded (info m)) (nodes (setHiddenAll h c)) = map (\<lambda>m. isExpanded (info m)) (nodes c)"
proof (induction c)
  case (Node i cs)
  have "map (\<lambda>x. map (\<lambda>m. isExpanded (info m)) (nodes (setHiddenAll h x))) cs
          = map (\<lambda>x. map (\<lambda>m. isExpanded (info m)) (nodes x)) cs"
    by (rule map_cong[OF refl]) (rule Node.IH)
  then have "concat (map (\<lambda>x. map (\<lambda>m. isExpanded (info m)) (nodes (setHiddenAll h x))) cs)
          = concat (map (\<lambda>x. map (\<lambda>m. isExpanded (info m)) (nodes x)) cs)"
    by (rule arg_cong)
  then show ?case by (simp add: map_concat comp_def)
qed

lemma tree_ok_node_at:
  "types_ok t \<Longrightarrow> elems_ok inh t \<Longrightarrow> consistent v t \<Longrightarrow> node_at t p = Some n \<Longrightarrow>
     elems_ok inh n \<and> consistent (shown n) n"
proof (induction p arbitrary: t v)
  case Nil
  then show ?case by (cases t) auto
next
  case (Cons j p)
  obtain i cs where t: "t = Node i cs" by (cases t)
  from Cons.prems(4) t have j: "j < length cs" and m: "node_at (cs ! j) p = Some n"
    by (auto split: if_splits)
  have "cs ! j \<in> set cs" using j by simp
  with Cons.prems(1-3) t have "types_ok (cs ! j)" "elems_ok inh (cs ! j)"
    "consistent (v \<and> isExpanded i) (cs ! j)" by auto
  from Cons.IH[OF this m] show ?case .
qed

lemma clickAt_node_at:
  "node_at t p = Some n \<Longrightarrow> click inh n d = Inr (n1, d1) \<Longrightarrow>
     \<exists>t1. clickAt inh p t d = Inr (t1, d1) \<and> node_at t1 p = Some n1"
proof (induction p arbitrary: t)
  case Nil
  then show ?case by (cases t) auto
next
  case (Cons j p)
  obtain i cs where t: "t = Node i cs" by (cases t)
  from Cons.prems(1) t have j: "j < length cs" and m: "node_at (cs ! j) p = Some n"
    by (auto split: if_splits)
  from Cons.IH[OF m Cons.prems(2)] obtain c1 where
    "clickAt inh p (cs ! j) d = Inr (c1, d1)" "node_at c1 p = Some n1" by blast
  with j t show ?case by simp
qed

text \<open>
  Claim C6, as stated, fails: the exported \<open>expand\<close> can show a node below a collapsed
  ancestor, and the collapse of a node hides the subtree of a child only if the child is
  expanded. Render \<open>{"a": {"b": {"c": 1}}}\<close>, expand the root, \<open>a\<close> and \<open>b\<close> by clicks,
  collapse \<open>b\<close> and then \<open>a\<close> by clicks, and call \<open>expand\<close> on \<open>b\<close>: the root is expanded,
  shown and materialized, \<open>a\<close> is collapsed, and \<open>b\<close> and \<open>c\<close> are shown. The click that
  collapses the root hides \<open>a\<close> and stops there: \<open>b\<close> and \<open>c\<close> stay shown.
\<close>

theorem collapse_reexpand_counterexample:
  "\<forall>inherited.
     (case andThen (andThen (andThen (andThen (andThen (renderJSON noParse inherited doc_ab dom0)
                (clickAt inherited [])) (clickAt inherited [0])) (clickAt inherited [0, 0]))
                (clickAt inherited [0, 0])) (clickAt inherited [0]) of
        Inr (t, d) \<Rightarrow>
          (case node_at t [0, 0] of
             Some b \<Rightarrow>
               (case expand b of
                  Inr b' \<Rightarrow>
                    (case replace_at t [0, 0] b' of
                       root \<Rightarrow>
                         isExpanded (info root) \<and> shown root \<and> children root \<noteq> []
                         \<and> list_all (\<lambda>m. el (info m) \<noteq> None) (nodes root)
                         \<and> (case click inherited root d of
                               Inr (root1, d1) \<Rightarrow>
                                 \<not> isExpanded (info root1)
                                 \<and> map shown (descendants root1) = [False, True, True]
                             | Inl e \<Rightarrow> False))
                | Inl e \<Rightarrow> False)
           | None \<Rightarrow> False)
      | Inl e \<Rightarrow> False)"
proof
  fix inherited
  show "(case andThen (andThen (andThen (andThen (andThen (renderJSON noParse inherited doc_ab dom0)
                (clickAt inherited [])) (clickAt inherited [0])) (clickAt inherited [0, 0]))
                (clickAt inherited [0, 0])) (clickAt inherited [0]) of
        Inr (t, d) \<Rightarrow>
          (case node_at t [0, 0] of
             Some b \<Rightarrow>
               (case expand b of
                  Inr b' \<Rightarrow>
                    (case replace_at t [0, 0] b' of
                       root \<Rightarrow>
                         isExpanded (info root) \<and> shown root \<and> children root \<noteq> []
                         \<and> list_all (\<lambda>m. el (info m) \<noteq> None) (nodes root)
                         \<and> (case click inherited root d of
                               Inr (root1, d1) \<Rightarrow>
                                 \<not> isExpanded (info root1)
                                 \<and> map shown (descendants root1) = [False, True, True]
                             | Inl e \<Rightarrow> False))
                | Inl e \<Rightarrow> False)
           | None \<Rightarrow> False)
      | Inl e \<Rightarrow> False)"
    by code_simp
qed

text \<open>
  Claim C6, amended. In a state that the initial render and clicks on carets alone have
  led to (no call of the exported \<open>expand\<close> or \<open>collapse\<close>, each click run to the end of
  its delayed continuation before the next), take a node that is shown, expanded, has
  children, and whose subtree is materialized (every node of it has its element). A click
  on its caret collapses it: every descendant is hidden and the \<open>isExpanded\<close> flag of every
  descendant is as before. A second click expands it again: its children are the children
  it had before the collapse, flags and visibility included, so each child is shown, and
  below a child exactly the nodes whose ancestors up to that child are all expanded are
  shown (\<open>consistent True\<close>); the children of a collapsed child stay hidden.
\<close>

theorem collapse_reexpand:
  assumes r: "reachable_by_clicks inh (t, d)" and at: "node_at t p = Some n"
    and x: "isExpanded (info n)" and sh: "shown n" and ne: "children n \<noteq> []"
    and mat: "\<forall>m \<in> set (nodes n). el (info m) \<noteq> None"
  shows "\<exists>n1 n2 t1 t2.
      click inh n d = Inr (n1, d) \<and> clickAt inh p t d = Inr (t1, d) \<and> node_at t1 p = Some n1
      \<and> \<not> isExpanded (info n1)
      \<and> (\<forall>m \<in> set (descendants n1). \<not> shown m)
      \<and> map (\<lambda>m. isExpanded (info m)) (descendants n1)
          = map (\<lambda>m. isExpanded (info m)) (descendants n)
      \<and> click inh n1 d = Inr (n2, d) \<and> clickAt inh p t1 d = Inr (t2, d) \<and> node_at t2 p = Some n2
      \<and> isExpanded (info n2) \<and> children n2 = children n
      \<and> (\<forall>c \<in> set (children n2). consistent True c)"
proof -
  from reachable_by_clicks_tree_ok[OF r] have ok: "types_ok t" "elems_ok inh t" "consistent (shown t) t"
    by (simp_all add: tree_ok_def)
  from tree_ok_node_at[OF ok at] sh have en: "elems_ok inh n" and cn: "consistent True n" by auto
  obtain i cs where n: "n = Node i cs" by (cases n)
  from sh n obtain e where e: "el i = Some e" "\<not> hidden e" by (auto simp: shown_Node)
  from en n e ne have "hasCaret (line e)" by auto
  then obtain k sz ic where le: "line e = ExpandedT k sz ic" by (cases "line e") auto
  from cn n x have cc: "\<forall>c \<in> set cs. consistent True c" by simp
  from mat n have cm: "\<forall>c \<in> set cs. \<forall>m \<in> set (nodes c). el (info m) \<noteq> None" by auto
  let ?i2 = "i \<lparr> isExpanded := False, el := Some (e \<lparr> line := ExpandedT k sz CaretRight \<rparr>) \<rparr>"
  let ?n1 = "Node ?i2 (map (setHiddenAll True) cs)"
  let ?i3 = "?i2 \<lparr> isExpanded := True,
                   el := Some (e \<lparr> line := ExpandedT k sz CaretRight \<rparr> \<lparr> line := ExpandedT k sz CaretDown \<rparr>) \<rparr>"
  let ?n2 = "Node ?i3 cs"
  have h: "hideNodeChildren (Node ?i2 cs) = Inr ?n1"
    using hide_materialized(1)[of "Node ?i2 cs" True] cc cm by simp
  have c1: "click inh n d = Inr (?n1, d)"
    using n e le x ne h
    by (simp add: click_def toggleNode_def setCaretIconRight_def setCaretIcon_def)
  from ne n obtain c0 cs0 where cs: "cs = c0 # cs0" by (cases cs) auto
  have "c0 \<in> set (nodes c0)" by (cases c0) simp
  then have "el (info c0) \<noteq> None" using cm cs by auto
  moreover have "elems_ok inh c0" using en n cs by simp
  ultimately have np: "\<not> isPending (info c0)" by (cases c0) auto
  have se: "showEach (map (setHiddenAll True) cs) = Inr cs"
    using show_restore[of cs] cc cm by simp
  have c2: "click inh ?n1 d = Inr (?n2, d)"
    using e np se[unfolded cs] cs
    by (simp add: click_def toggleNode_def setCaretIconDown_def setCaretIcon_def)
  from clickAt_node_at[OF at c1] obtain t1 where
    t1: "clickAt inh p t d = Inr (t1, d)" "node_at t1 p = Some ?n1" by blast
  from clickAt_node_at[OF t1(2) c2] obtain t2 where
    t2: "clickAt inh p t1 d = Inr (t2, d)" "node_at t2 p = Some ?n2" by blast
  have d1: "\<forall>m \<in> set (descendants ?n1). \<not> shown m"
    by (auto simp: descendants_def dest: nodes_setHiddenAll_hidden)
  have d2: "map (\<lambda>m. isExpanded (info m)) (descendants ?n1)
          = map (\<lambda>m. isExpanded (info m)) (descendants n)"
  proof -
    have "map (\<lambda>x. map (\<lambda>m. isExpanded (info m)) (nodes (setHiddenAll True x))) cs
          = map (\<lambda>x. map (\<lambda>m. isExpanded (info m)) (nodes x)) cs"
      by (rule map_cong[OF refl]) (rule nodes_setHiddenAll_flags)
    then have "concat (map (\<lambda>x. map (\<lambda>m. isExpanded (info m)) (nodes (setHiddenAll True x))) cs)
          = concat (map (\<lambda>x. map (\<lambda>m. isExpanded (info m)) (nodes x)) cs)"
      by (rule arg_cong)
    then show ?thesis by (simp add: descendants_def n map_concat comp_def)
  qed
  have "\<not> isExpanded (info ?n1)" "isExpanded (info ?n2)" "children ?n2 = children n"
    "\<forall>c \<in> set (children ?n2). consistent True c"
    using n cc by simp_all
  with c1 c2 t1 t2 d1 d2 show ?thesis by blast
qed

lemma doc_ab_clicked:
  "(case andThen (andThen (andThen (andThen (renderJSON noParse inh doc_ab dom0)
              (clickAt inh [])) (clickAt inh [0])) (clickAt inh [0, 0])) (clickAt inh [0, 0]) of
      Inr (t, d) \<Rightarrow>
        (case node_at t [0] of
           Some n \<Rightarrow> isExpanded (info n) \<and> shown n \<and> children n \<noteq> []
                     \<and> list_all (\<lambda>m. el (info m) \<noteq> None) (nodes n)
         | None \<Rightarrow> False)
    | Inl e \<Rightarrow> False)"
  by code_simp

theorem collapse_reexpand_witness:
  "\<exists>t d n n1 n2.
     andThen (andThen (andThen (andThen (renderJSON noParse noInherited doc_ab dom0)
              (clickAt noInherited [])) (clickAt noInherited [0])) (clickAt noInherited [0, 0])) (clickAt noInherited [0, 0]) = Inr (t, d)
     \<and> reachable_by_clicks noInherited (t, d) \<and> node_at t [0] = Some n
     \<and> isExpanded (info n) \<and> shown n \<and> children n \<noteq> []
     \<and> click noInherited n d = Inr (n1, d) \<and> \<not> isExpanded (info n1)
     \<and> click noInherited n1 d = Inr (n2, d) \<and> isExpanded (info n2) \<and> children n2 = children n"
proof -
  let ?r = "andThen (andThen (andThen (andThen (renderJSON noParse noInherited doc_ab dom0)
              (clickAt noInherited [])) (clickAt noInherited [0])) (clickAt noInherited [0, 0])) (clickAt noInherited [0, 0])"
  from doc_ab_clicked[of noInherited] obtain t d where h1: "?r = Inr (t, d)"
    and r1: "(case node_at t [0] of
           Some n \<Rightarrow> isExpanded (info n) \<and> shown n \<and> children n \<noteq> []
                     \<and> list_all (\<lambda>m. el (info m) \<noteq> None) (nodes n)
         | None \<Rightarrow> False)"
    by (cases ?r) auto
  from r1 obtain n where h2: "node_at t [0] = Some n" "isExpanded (info n)" "shown n"
    "children n \<noteq> []" "\<forall>m \<in> set (nodes n). el (info m) \<noteq> None"
    by (cases "node_at t [0]") (auto simp: list_all_iff)
  have re: "reachable_by_clicks noInherited (t, d)"
    apply (rule reachable_andThen[OF h1])
    apply (erule reachable_andThen)
    apply (erule reachable_andThen)
    apply (erule reachable_andThen)
    apply (erule renderJSON_reachable)
    done
  from collapse_reexpand[OF re h2] obtain n1 n2 where
    "click noInherited n d = Inr (n1, d)" "\<not> isExpanded (info n1)"
    "click noInherited n1 d = Inr (n2, d)" "isExpanded (info n2)" "children n2 = children n"
    by blast
  with h1 h2 re show ?thesis by blast
qed

end
